theory Spec2Isabelle
  imports Main
begin

section \<open>Python values and errors\<close>

text \<open>
  The exceptions that the statements of \<^verbatim>\<open>atme.py\<close> and of the two option
  parsers can raise by themselves.  Exceptions raised inside the external
  collaborators (model, dataset provider, visualizer) are outside this
  development: a collaborator call is modelled as returning.
\<close>

datatype error =
    ValueError
  | ZeroDivisionError
  | UnboundLocalError
  | AttributeError
  | IndexError
  | RuntimeError
  | FileExistsError
  | FileNotFoundError
  | NotADirectoryError
  | IsADirectoryError

text \<open>
  Python's \<^verbatim>\<open>a % b\<close> on integers: the result has the sign of the divisor, as
  \<open>mod\<close> on \<^typ>\<open>int\<close> has; a zero divisor raises.
\<close>

definition py_mod :: "int \<Rightarrow> int \<Rightarrow> error + int" where
  "py_mod a b = (if b = 0 then Inl ZeroDivisionError else Inr (a mod b))"

section \<open>Option parsing: the gpu id list\<close>

text \<open>\<^verbatim>\<open>str.split(sep)\<close> for a one-character separator: never returns the empty list.\<close>

fun split :: "char \<Rightarrow> string \<Rightarrow> string list" where
  "split sep [] = [[]]"
| "split sep (c # cs) =
     (if c = sep then [] # split sep cs
      else (let ps = split sep cs in (c # hd ps) # tl ps))"

text \<open>
  \<^verbatim>\<open>int(s)\<close> on a string, base 10.  A character stands for the code point of
  the same number, 0 to 255.  CPython first turns the code points 133 and 160,
  the two white-space code points in that range that are not below 127, into
  spaces; code points below 127 are kept as they are, so 28 to 31 are not
  white space here although \<^verbatim>\<open>str.strip\<close> removes them.  The conversion then
  skips the ASCII white space 9 to 13 and 32 at both ends, takes one optional
  sign, and reads digits, with single underscores allowed between digits.
  Anything else raises \<^verbatim>\<open>ValueError\<close>, and so does a literal with more digits
  than the interpreter's limit \<open>lim\<close> (\<^verbatim>\<open>sys.get_int_max_str_digits()\<close>: 0 for no
  limit, else at least 640; 4300 by default where the limit exists).
\<close>

definition is_space :: "char \<Rightarrow> bool" where
  "is_space c = (let n = of_char c :: nat in (9 \<le> n \<and> n \<le> 13) \<or> n = 32 \<or> n = 133 \<or> n = 160)"

definition is_digit :: "char \<Rightarrow> bool" where
  "is_digit c = (let n = of_char c :: nat in 48 \<le> n \<and> n \<le> 57)"

definition digit_val :: "char \<Rightarrow> nat" where
  "digit_val c = of_char c - 48"

definition strip :: "string \<Rightarrow> string" where
  "strip s = rev (dropWhile is_space (rev (dropWhile is_space s)))"

text \<open>The value read so far and the number of digits read so far.\<close>

fun py_digits :: "nat \<Rightarrow> nat \<Rightarrow> string \<Rightarrow> (nat \<times> nat) option" where
  "py_digits acc k [] = Some (acc, k)"
| "py_digits acc k (c # cs) =
     (if is_digit c then py_digits (10 * acc + digit_val c) (Suc k) cs
      else if c = CHR ''_'' then
        (case cs of
           [] \<Rightarrow> None
         | d # ds \<Rightarrow>
             if is_digit d then py_digits (10 * acc + digit_val d) (Suc k) ds else None)
      else None)"

definition py_nat :: "nat \<Rightarrow> string \<Rightarrow> nat option" where
  "py_nat lim s =
     (case s of
        [] \<Rightarrow> None
      | c # cs \<Rightarrow>
          if is_digit c then
            (case py_digits (digit_val c) 1 cs of
               None \<Rightarrow> None
             | Some (n, k) \<Rightarrow> if 0 < lim \<and> lim < k then None else Some n)
          else None)"

definition py_int :: "nat \<Rightarrow> string \<Rightarrow> error + int" where
  "py_int lim s =
     (let t = strip s in
      case t of
        [] \<Rightarrow> Inl ValueError
      | c # cs \<Rightarrow>
          if c = CHR ''-'' then
            (case py_nat lim cs of None \<Rightarrow> Inl ValueError | Some n \<Rightarrow> Inr (- int n))
          else if c = CHR ''+'' then
            (case py_nat lim cs of None \<Rightarrow> Inl ValueError | Some n \<Rightarrow> Inr (int n))
          else
            (case py_nat lim t of None \<Rightarrow> Inl ValueError | Some n \<Rightarrow> Inr (int n)))"

text \<open>
  The namespace that \<^verbatim>\<open>gather_options\<close> returns, restricted to the attributes
  that \<^verbatim>\<open>parse\<close> reads.  No \<^verbatim>\<open>--name\<close> argument is declared in the two option
  classes, so the attribute may be absent.
\<close>

record gathered =
  g_suffix :: string
  g_name :: "string option"
  g_gpu_ids :: string
  g_planes :: string

text \<open>
  The namespace after \<^verbatim>\<open>parse\<close>: \<^verbatim>\<open>gpu_ids\<close> is now a list of integers and,
  after \<^verbatim>\<open>SimpleOptions.parse\<close>, \<^verbatim>\<open>planes\<close> a list of strings.  \<open>cuda_device\<close> is
  the argument of the call of \<^verbatim>\<open>torch.cuda.set_device\<close>, \<open>None\<close> when the call is
  not made.
\<close>

record parsed =
  p_name :: "string option"
  p_gpu_ids :: "int list"
  cuda_device :: "int option"

record simple_parsed = parsed +
  p_planes :: "string list"

text \<open>Lines 89-91 (simple) and 100-102 (base). \<open>fmt\<close> is \<^verbatim>\<open>opt.suffix.format(**vars(opt))\<close>.\<close>

definition process_suffix :: "(string \<Rightarrow> error + string) \<Rightarrow> gathered \<Rightarrow> error + string option" where
  "process_suffix fmt g =
     (if g_suffix g \<noteq> [] then
        (case fmt (g_suffix g) of
           Inl e \<Rightarrow> Inl e
         | Inr f \<Rightarrow>
            (case g_name g of
               None \<Rightarrow> Inl AttributeError
             | Some n \<Rightarrow> Inr (Some (n @ CHR ''_'' # f))))
      else Inr (g_name g))"

text \<open>The loop over \<^verbatim>\<open>str_ids\<close>; the accumulator is \<^verbatim>\<open>opt.gpu_ids\<close>.\<close>

fun gpu_ids_loop :: "nat \<Rightarrow> string list \<Rightarrow> int list \<Rightarrow> error + int list" where
  "gpu_ids_loop lim [] ids = Inr ids"
| "gpu_ids_loop lim (str_id # rest) ids =
     (case py_int lim str_id of
        Inl e \<Rightarrow> Inl e
      | Inr i \<Rightarrow> gpu_ids_loop lim rest (if i \<ge> 0 then ids @ [i] else ids))"

definition set_gpu_ids :: "nat \<Rightarrow> string \<Rightarrow> error + (int list \<times> int option)" where
  "set_gpu_ids lim s =
     (case gpu_ids_loop lim (split CHR '','' s) [] of
        Inl e \<Rightarrow> Inl e
      | Inr ids \<Rightarrow> Inr (ids, if length ids > 0 then Some (hd ids) else None))"

text \<open>The loop over \<^verbatim>\<open>str_planes\<close> appends every piece.\<close>

fun planes_loop :: "string list \<Rightarrow> string list \<Rightarrow> string list" where
  "planes_loop [] ps = ps"
| "planes_loop (str_plane # rest) ps = planes_loop rest (ps @ [str_plane])"

definition base_parse ::
  "nat \<Rightarrow> (string \<Rightarrow> error + string) \<Rightarrow> gathered \<Rightarrow> error + parsed" where
  "base_parse lim fmt g =
     (case process_suffix fmt g of
        Inl e \<Rightarrow> Inl e
      | Inr nm \<Rightarrow>
         (case set_gpu_ids lim (g_gpu_ids g) of
            Inl e \<Rightarrow> Inl e
          | Inr (ids, dev) \<Rightarrow>
              Inr \<lparr>p_name = nm, p_gpu_ids = ids, cuda_device = dev\<rparr>))"

definition simple_parse ::
  "nat \<Rightarrow> (string \<Rightarrow> error + string) \<Rightarrow> gathered \<Rightarrow> error + simple_parsed" where
  "simple_parse lim fmt g =
     (case process_suffix fmt g of
        Inl e \<Rightarrow> Inl e
      | Inr nm \<Rightarrow>
         (case set_gpu_ids lim (g_gpu_ids g) of
            Inl e \<Rightarrow> Inl e
          | Inr (ids, dev) \<Rightarrow>
              Inr \<lparr>p_name = nm, p_gpu_ids = ids, cuda_device = dev,
                   p_planes = planes_loop (split CHR '','' (g_planes g)) []\<rparr>))"

section \<open>Configuration\<close>

text \<open>
  The attributes of the option namespace that \<^verbatim>\<open>train\<close> and \<^verbatim>\<open>test\<close> read or
  write.  \<^verbatim>\<open>data_dir\<close> is not a command-line argument: the attribute is created
  by the assignment at the start of each loop, so it is optional here.
  \<open>has_n_save_noisy\<close> is the test \<^verbatim>\<open>'n_save_noisy' in vars(opt)\<close>.
\<close>

record opt =
  isTrain :: bool
  main_root :: string
  model_root :: string
  exp_name :: string
  data_name :: string
  save_dir :: string
  data_dir :: "string option"
  epoch_count :: int
  n_epochs :: int
  n_epochs_decay :: int
  batch_size :: int
  display_freq :: int
  update_html_freq :: int
  print_freq :: int
  save_latest_freq :: int
  save_epoch_freq :: int
  save_by_iter :: bool
  has_n_save_noisy :: bool
  csv_name :: string
  eval_plane :: string
  data_format :: string
  global_min :: int
  global_max :: int
  vol_cube_dim :: int
  save_nifti :: bool

text \<open>\<^verbatim>\<open>os.path.join\<close> (posixpath): an absolute component discards what precedes it.\<close>

definition join2 :: "string \<Rightarrow> string \<Rightarrow> string" where
  "join2 path b =
     (if b \<noteq> [] \<and> hd b = CHR ''/'' then b
      else if path = [] \<or> last path = CHR ''/'' then path @ b
      else path @ CHR ''/'' # b)"

definition path_join :: "string \<Rightarrow> string list \<Rightarrow> string" where
  "path_join a p = foldl join2 a p"

section \<open>The training loop\<close>

text \<open>
  Every call of a collaborator is appended to a log.  An entry also records the
  values of \<^verbatim>\<open>epoch\<close> and \<^verbatim>\<open>total_iters\<close> at the moment of the call; the arguments
  of a call are those the source passes (losses, visuals and wall-clock values
  are left out).
\<close>

datatype tag = Latest | Iter int | Epoch int

datatype 'd call =
    VisReset
  | UpdateLearningRate
  | SetInput 'd "int option"
  | OptimizeParameters
  | ComputeVisuals
  | GetCurrentLosses
  | PrintCurrentLosses int int
  | PrintSavingLatest int int
  | SaveNetworks tag
  | GetCurrentVisuals
  | SaveAtmeImages string int int int
  | PrintSavingEpoch int int
  | SaveDLosses
  | SaveToTensorboard int
  | PrintEndOfEpoch int int

datatype 'd entry = Entry (at_epoch: int) (at_iters: int) (call: "'d call")

text \<open>
  The state of \<^verbatim>\<open>train\<close>: the option namespace, which every statement reads
  where it stands, and the local variables that outlive a statement.  \<open>t_data\<close>
  is \<open>None\<close> while the name is unbound.  \<open>rng_pos\<close> counts the draws taken from
  the process-wide random source.
\<close>

record 'd tstate =
  cfg :: opt
  total_iters :: int
  epoch_iter :: int
  t_data :: "unit option"
  rng_pos :: nat
  log :: "'d entry list"

text \<open>A run ends normally or is aborted by an exception; the state reached is kept.\<close>

datatype 's outcome = Done 's | Raised error 's

definition and_then :: "'s outcome \<Rightarrow> ('s \<Rightarrow> 's outcome) \<Rightarrow> 's outcome" where
  "and_then r f = (case r of Done s \<Rightarrow> f s | Raised e s \<Rightarrow> Raised e s)"

definition emit :: "int \<Rightarrow> 'd call \<Rightarrow> 'd tstate \<Rightarrow> 'd tstate" where
  "emit epoch c s = s\<lparr>log := log s @ [Entry epoch (total_iters s) c]\<rparr>"

text \<open>
  \<^verbatim>\<open>random.randint(a, b)\<close> is \<^verbatim>\<open>randrange(a, b + 1)\<close>: it raises on an empty range
  and otherwise returns \<^verbatim>\<open>a + _randbelow(b + 1 - a)\<close>.  The generator is a
  sequence of draws \<open>draws\<close>; \<^verbatim>\<open>_randbelow(n)\<close> reduces the next draw below \<open>n\<close>.
\<close>

definition randbelow :: "(nat \<Rightarrow> nat) \<Rightarrow> int \<Rightarrow> 'd tstate \<Rightarrow> int \<times> 'd tstate" where
  "randbelow draws n s = (int (draws (rng_pos s)) mod n, s\<lparr>rng_pos := Suc (rng_pos s)\<rparr>)"

definition randint :: "(nat \<Rightarrow> nat) \<Rightarrow> int \<Rightarrow> int \<Rightarrow> 'd tstate \<Rightarrow> error + (int \<times> 'd tstate)" where
  "randint draws a b s =
     (let width = b + 1 - a in
      if width > 0 then (case randbelow draws width s of (r, s') \<Rightarrow> Inr (a + r, s'))
      else Inl ValueError)"

text \<open>Lines 65-66: the guard that binds \<^verbatim>\<open>t_data\<close>, before the counter advances.\<close>

definition bind_t_data :: "opt \<Rightarrow> 'd tstate \<Rightarrow> 'd tstate outcome" where
  "bind_t_data opt s =
     (case py_mod (total_iters s) (print_freq opt) of
        Inl e \<Rightarrow> Raised e s
      | Inr r \<Rightarrow> Done (if r = 0 then s\<lparr>t_data := Some ()\<rparr> else s))"

text \<open>Lines 68-74: both counters advance, then the batch is fed and optimised.\<close>

definition advance :: "opt \<Rightarrow> int \<Rightarrow> 'd \<Rightarrow> 'd tstate \<Rightarrow> 'd tstate" where
  "advance opt epoch data s =
     (let s1 = s\<lparr>total_iters := total_iters s + batch_size opt\<rparr>;
          s2 = s1\<lparr>epoch_iter := epoch_iter s1 + batch_size opt\<rparr>;
          s3 = emit epoch (SetInput data (if has_n_save_noisy opt then Some epoch else None)) s2
      in emit epoch OptimizeParameters s3)"

text \<open>Lines 76-78.\<close>

definition display_check :: "opt \<Rightarrow> int \<Rightarrow> 'd tstate \<Rightarrow> 'd tstate outcome" where
  "display_check opt epoch s =
     (case py_mod (total_iters s) (display_freq opt) of
        Inl e \<Rightarrow> Raised e s
      | Inr r \<Rightarrow>
          if r = 0 then
            (case py_mod (total_iters s) (update_html_freq opt) of
               Inl e \<Rightarrow> Raised e s
             | Inr _ \<Rightarrow> Done (emit epoch ComputeVisuals s))
          else Done s)"

text \<open>
  Lines 81-84.  \<^verbatim>\<open>t_comp\<close> divides a float by \<^verbatim>\<open>opt.batch_size\<close>, which raises
  for a zero batch size; \<^verbatim>\<open>t_data\<close> is read last, as the last argument of the call.
\<close>

definition print_check :: "opt \<Rightarrow> int \<Rightarrow> 'd tstate \<Rightarrow> 'd tstate outcome" where
  "print_check opt epoch s =
     (case py_mod (total_iters s) (print_freq opt) of
        Inl e \<Rightarrow> Raised e s
      | Inr r \<Rightarrow>
          if r = 0 then
            (let s1 = emit epoch GetCurrentLosses s in
             if batch_size opt = 0 then Raised ZeroDivisionError s1
             else (case t_data s1 of
                     None \<Rightarrow> Raised UnboundLocalError s1
                   | Some _ \<Rightarrow> Done (emit epoch (PrintCurrentLosses epoch (epoch_iter s1)) s1)))
          else Done s)"

text \<open>Lines 88-94; \<open>i\<close> is the index of the batch in the enumeration.\<close>

definition save_latest_check ::
  "(nat \<Rightarrow> nat) \<Rightarrow> opt \<Rightarrow> string \<Rightarrow> int \<Rightarrow> nat \<Rightarrow> 'd tstate \<Rightarrow> 'd tstate outcome" where
  "save_latest_check draws opt save_fig_dir epoch i s =
     (case py_mod (total_iters s) (save_latest_freq opt) of
        Inl e \<Rightarrow> Raised e s
      | Inr r \<Rightarrow>
          if r = 0 then
            (let s1 = emit epoch (PrintSavingLatest epoch (total_iters s)) s;
                 save_suffix = (if save_by_iter opt then Iter (total_iters s) else Latest);
                 s2 = emit epoch (SaveNetworks save_suffix) s1;
                 s3 = emit epoch GetCurrentVisuals s2
             in if batch_size opt = 1 then
                  Done (emit epoch (SaveAtmeImages save_fig_dir (int i) (total_iters s) epoch) s3)
                else
                  (case randint draws 0 (batch_size opt) s3 of
                     Inl e \<Rightarrow> Raised e s3
                   | Inr (slice_num, s4) \<Rightarrow>
                       Done (emit epoch
                         (SaveAtmeImages save_fig_dir slice_num (total_iters s) epoch) s4)))
          else Done s)"

text \<open>
  Lines 64-96: the body of the batch loop.  Each statement reads the namespace
  of the state it runs in.
\<close>

definition batch_step ::
  "(nat \<Rightarrow> nat) \<Rightarrow> string \<Rightarrow> int \<Rightarrow> nat \<times> 'd \<Rightarrow> 'd tstate \<Rightarrow> 'd tstate outcome" where
  "batch_step draws save_fig_dir epoch b s =
     and_then (bind_t_data (cfg s) s) (\<lambda>s.
     and_then (display_check (cfg s) epoch (advance (cfg s) epoch (snd b) s)) (\<lambda>s.
     and_then (print_check (cfg s) epoch s) (\<lambda>s.
       save_latest_check draws (cfg s) save_fig_dir epoch (fst b) s)))"

fun batch_loop ::
  "(nat \<Rightarrow> nat) \<Rightarrow> string \<Rightarrow> int \<Rightarrow> (nat \<times> 'd) list \<Rightarrow> 'd tstate \<Rightarrow> 'd tstate outcome" where
  "batch_loop draws save_fig_dir epoch [] s = Done s"
| "batch_loop draws save_fig_dir epoch (b # bs) s =
     and_then (batch_step draws save_fig_dir epoch b s)
       (batch_loop draws save_fig_dir epoch bs)"

text \<open>Lines 97-108: the end of an epoch.\<close>

definition epoch_end :: "opt \<Rightarrow> int \<Rightarrow> 'd tstate \<Rightarrow> 'd tstate outcome" where
  "epoch_end opt epoch s =
     (case py_mod epoch (save_epoch_freq opt) of
        Inl e \<Rightarrow> Raised e s
      | Inr r \<Rightarrow>
          (let s1 = (if r = 0 then
                       emit epoch (SaveNetworks (Epoch epoch))
                         (emit epoch (SaveNetworks Latest)
                           (emit epoch (PrintSavingEpoch epoch (total_iters s)) s))
                     else s);
               s2 = emit epoch SaveDLosses (emit epoch GetCurrentLosses s1);
               s3 = emit epoch (SaveToTensorboard epoch) (emit epoch GetCurrentLosses s2)
           in Done (emit epoch
                (PrintEndOfEpoch epoch (n_epochs opt + n_epochs_decay opt)) s3)))"

text \<open>
  Lines 58-108: one epoch.  \<open>ds epoch\<close> is the sequence of batches that iterating
  the dataset yields during that epoch.
\<close>

definition epoch_step ::
  "(nat \<Rightarrow> nat) \<Rightarrow> string \<Rightarrow> (int \<Rightarrow> 'd list) \<Rightarrow> int \<Rightarrow> 'd tstate \<Rightarrow> 'd tstate outcome" where
  "epoch_step draws save_fig_dir ds epoch s =
     (let s1 = emit epoch VisReset (s\<lparr>epoch_iter := 0\<rparr>);
          s2 = emit epoch UpdateLearningRate s1
      in and_then (batch_loop draws save_fig_dir epoch (enumerate 0 (ds epoch)) s2)
           (\<lambda>s. epoch_end (cfg s) epoch s))"

fun epoch_loop ::
  "(nat \<Rightarrow> nat) \<Rightarrow> string \<Rightarrow> (int \<Rightarrow> 'd list) \<Rightarrow> int list \<Rightarrow> 'd tstate \<Rightarrow> 'd tstate outcome" where
  "epoch_loop draws save_fig_dir ds [] s = Done s"
| "epoch_loop draws save_fig_dir ds (epoch # rest) s =
     and_then (epoch_step draws save_fig_dir ds epoch s)
       (epoch_loop draws save_fig_dir ds rest)"

text \<open>
  Lines 40-45: the writes to the option namespace at the start of \<^verbatim>\<open>train\<close>.
\<close>

definition train_opt :: "opt \<Rightarrow> opt" where
  "train_opt opt =
     (let opt1 = opt\<lparr>isTrain := True\<rparr>;
          opt2 = opt1\<lparr>save_dir := path_join (main_root opt1) [model_root opt1, exp_name opt1]\<rparr>
      in opt2\<lparr>data_dir := Some (path_join (main_root opt2) [model_root opt2, data_name opt2])\<rparr>)"

definition train_fig_dir :: "opt \<Rightarrow> string" where
  "train_fig_dir opt = path_join (save_dir opt) [''figures'', ''train'']"

definition init_tstate :: "opt \<Rightarrow> 'd tstate" where
  "init_tstate opt =
     \<lparr>cfg = opt, total_iters = 0, epoch_iter = 0, t_data = None, rng_pos = 0, log = []\<rparr>"

definition epochs :: "opt \<Rightarrow> int list" where
  "epochs opt = [epoch_count opt .. n_epochs opt + n_epochs_decay opt]"

definition outcome_state :: "'s outcome \<Rightarrow> 's" where
  "outcome_state r = (case r of Done s \<Rightarrow> s | Raised e s \<Rightarrow> s)"

text \<open>
  \<^verbatim>\<open>train(opt)\<close>: the namespace as the run leaves it, and the outcome of the epoch
  loop.  \<open>ds\<close> stands for the object that \<^verbatim>\<open>create_atme_train_dataset\<close> returns;
  the collaborators that receive the namespace (dataset, model, visualizer) are
  taken not to write to it.  \<^verbatim>\<open>save_fig_dir\<close> and the range of epochs are computed
  once, before the loop.
\<close>

definition train ::
  "(nat \<Rightarrow> nat) \<Rightarrow> (int \<Rightarrow> 'd list) \<Rightarrow> opt \<Rightarrow> opt \<times> 'd tstate outcome" where
  "train draws ds opt =
     (let s0 = init_tstate (train_opt opt);
          r = epoch_loop draws (train_fig_dir (cfg s0)) ds (epochs (cfg s0)) s0
      in (cfg (outcome_state r), r))"

section \<open>Reading the log of a training run\<close>

text \<open>The counter values at which the calls selected by \<open>P\<close> were made, in order.\<close>

definition fired :: "('d call \<Rightarrow> bool) \<Rightarrow> 'd entry list \<Rightarrow> int list" where
  "fired P l = map at_iters (filter (\<lambda>x. P (call x)) l)"

text \<open>
  One \<^verbatim>\<open>optimize_parameters\<close> call is made per batch step, after the counter has
  advanced: its entries give the values the counter takes after a batch step.
\<close>

definition is_optimize :: "'d call \<Rightarrow> bool" where
  "is_optimize c = (case c of OptimizeParameters \<Rightarrow> True | _ \<Rightarrow> False)"

definition is_set_input :: "'d call \<Rightarrow> bool" where
  "is_set_input c = (case c of SetInput _ _ \<Rightarrow> True | _ \<Rightarrow> False)"

definition is_update_lr :: "'d call \<Rightarrow> bool" where
  "is_update_lr c = (case c of UpdateLearningRate \<Rightarrow> True | _ \<Rightarrow> False)"

definition is_display :: "'d call \<Rightarrow> bool" where
  "is_display c = (case c of ComputeVisuals \<Rightarrow> True | _ \<Rightarrow> False)"

definition is_print :: "'d call \<Rightarrow> bool" where
  "is_print c = (case c of PrintCurrentLosses _ _ \<Rightarrow> True | _ \<Rightarrow> False)"

definition is_save_latest :: "'d call \<Rightarrow> bool" where
  "is_save_latest c = (case c of SaveAtmeImages _ _ _ _ \<Rightarrow> True | _ \<Rightarrow> False)"

definition steps :: "'d entry list \<Rightarrow> int list" where
  "steps l = fired is_optimize l"

text \<open>The calls made during one epoch, in order.\<close>

definition epoch_calls :: "int \<Rightarrow> 'd entry list \<Rightarrow> 'd call list" where
  "epoch_calls e l = map call (filter (\<lambda>x. at_epoch x = e) l)"

text \<open>The slice numbers handed to \<^verbatim>\<open>save_atme_images\<close>, in order.\<close>

fun slice_of :: "'d call \<Rightarrow> int list" where
  "slice_of (SaveAtmeImages d n t e) = [n]"
| "slice_of _ = []"

definition slice_nums :: "'d entry list \<Rightarrow> int list" where
  "slice_nums l = concat (map (\<lambda>x. slice_of (call x)) l)"

text \<open>\<open>n\<close> successive values of a counter that starts at \<open>t0\<close> and advances by \<open>b\<close>.\<close>

definition counter_values :: "int \<Rightarrow> int \<Rightarrow> nat \<Rightarrow> int list" where
  "counter_values t0 b n = map (\<lambda>k. t0 + int k * b) [1..<Suc n]"

text \<open>The number of batches of a run.\<close>

definition n_batches :: "(int \<Rightarrow> 'd list) \<Rightarrow> int list \<Rightarrow> nat" where
  "n_batches ds es = sum_list (map (\<lambda>e. length (ds e)) es)"


text \<open>Adjacent entries of a log, and the counter values at which a pair selected by
  \<open>P\<close> and \<open>Q\<close> was made one call after the other.\<close>

definition adjacent :: "'b list \<Rightarrow> ('b \<times> 'b) list" where
  "adjacent l = zip l (tl l)"

definition fired_pair ::
  "('d call \<Rightarrow> bool) \<Rightarrow> ('d entry \<Rightarrow> bool) \<Rightarrow> 'd entry list \<Rightarrow> int list" where
  "fired_pair P Q l =
     map (\<lambda>p. at_iters (snd p)) (filter (\<lambda>p. P (call (fst p)) \<and> Q (snd p)) (adjacent l))"

definition is_saving_latest :: "'d call \<Rightarrow> bool" where
  "is_saving_latest c = (case c of PrintSavingLatest _ _ \<Rightarrow> True | _ \<Rightarrow> False)"

definition is_get_losses :: "'d call \<Rightarrow> bool" where
  "is_get_losses c = (case c of GetCurrentLosses \<Rightarrow> True | _ \<Rightarrow> False)"

definition is_get_visuals :: "'d call \<Rightarrow> bool" where
  "is_get_visuals c = (case c of GetCurrentVisuals \<Rightarrow> True | _ \<Rightarrow> False)"

text \<open>
  The checkpoint save of the latest-model cadence: \<^verbatim>\<open>save_networks\<close> with the
  suffix of line 90, made right after the message of line 89.  (The save at the
  end of an epoch follows another message.)
\<close>

definition saves_networks :: "opt \<Rightarrow> 'd entry \<Rightarrow> bool" where
  "saves_networks opt x =
     (case call x of
        SaveNetworks sfx \<Rightarrow> sfx = (if save_by_iter opt then Iter (at_iters x) else Latest)
      | _ \<Rightarrow> False)"

definition prints_losses :: "'d entry \<Rightarrow> bool" where
  "prints_losses x = is_print (call x)"

text \<open>A log does not end with the first call of a pair.\<close>

definition ends_ok :: "'d entry list \<Rightarrow> bool" where
  "ends_ok l = (case rev l of [] \<Rightarrow> True | x # _ \<Rightarrow> \<not> is_saving_latest (call x) \<and> \<not> is_get_losses (call x))"

text \<open>
  Every call of the three cadence branches is made at exactly the counter
  values that are multiples of the frequency of the branch.
\<close>

definition cadences_ok :: "opt \<Rightarrow> 'd entry list \<Rightarrow> bool" where
  "cadences_ok opt l \<longleftrightarrow>
     fired is_display l = filter (\<lambda>t. t mod display_freq opt = 0) (steps l) \<and>
     fired is_print l = filter (\<lambda>t. t mod print_freq opt = 0) (steps l) \<and>
     fired is_save_latest l = filter (\<lambda>t. t mod save_latest_freq opt = 0) (steps l) \<and>
     fired_pair is_get_losses prints_losses l = filter (\<lambda>t. t mod print_freq opt = 0) (steps l) \<and>
     fired is_saving_latest l = filter (\<lambda>t. t mod save_latest_freq opt = 0) (steps l) \<and>
     fired_pair is_saving_latest (saves_networks opt) l
       = filter (\<lambda>t. t mod save_latest_freq opt = 0) (steps l) \<and>
     fired is_get_visuals l = filter (\<lambda>t. t mod save_latest_freq opt = 0) (steps l) \<and>
     ends_ok l"

text \<open>
  The calls of an epoch start with the visualizer reset and the learning-rate
  update, and no further learning-rate update follows.
\<close>

fun lr_first :: "'d call list \<Rightarrow> bool" where
  "lr_first (VisReset # UpdateLearningRate # rest) = list_all (\<lambda>c. \<not> is_update_lr c) rest"
| "lr_first _ = False"

definition is_batch_call :: "'d call \<Rightarrow> bool" where
  "is_batch_call c = (is_set_input c \<or> is_optimize c)"

text \<open>No frequency is zero and the batch size is positive.\<close>

definition freqs_ok :: "opt \<Rightarrow> bool" where
  "freqs_ok opt \<longleftrightarrow> display_freq opt \<noteq> 0 \<and> update_html_freq opt \<noteq> 0 \<and> print_freq opt \<noteq> 0
     \<and> save_latest_freq opt \<noteq> 0 \<and> save_epoch_freq opt \<noteq> 0 \<and> 0 < batch_size opt"

definition is_done :: "'s outcome \<Rightarrow> bool" where
  "is_done r = (case r of Done _ \<Rightarrow> True | Raised _ _ \<Rightarrow> False)"

text \<open>
  The namespace of the declared defaults of \<^verbatim>\<open>BaseOptions\<close> and \<^verbatim>\<open>SimpleOptions\<close>,
  for the attributes the loops use.
\<close>

definition default_opt :: opt where
  "default_opt =
     \<lparr>isTrain = True, main_root = ''outputs'', model_root = ''simple_output'',
      exp_name = ''runs'', data_name = ''data'', save_dir = ''outputs'', data_dir = None,
      epoch_count = 1, n_epochs = 100, n_epochs_decay = 500, batch_size = 16,
      display_freq = 400, update_html_freq = 1000, print_freq = 100,
      save_latest_freq = 5000, save_epoch_freq = 5, save_by_iter = False,
      has_n_save_noisy = False, csv_name = ''coronal_axial_sagital_cases.csv'',
      eval_plane = ''coronal'', data_format = ''nifti'', global_min = 0, global_max = 0,
      vol_cube_dim = 512, save_nifti = True\<rparr>"

text \<open>Two epochs, batch size one, and small frequencies.\<close>

definition small_opt :: opt where
  "small_opt = default_opt\<lparr>n_epochs := 2, n_epochs_decay := 0, batch_size := 1,
     display_freq := 3, print_freq := 2, save_latest_freq := 4\<rparr>"

text \<open>The configuration of scenario A; the frequencies it leaves open are the defaults.\<close>

definition scenario_A_opt :: opt where
  "scenario_A_opt = default_opt\<lparr>epoch_count := 1, n_epochs := 2, n_epochs_decay := 0,
     batch_size := 1, save_latest_freq := 1000000\<rparr>"

text \<open>A dataset that yields the same three batches in every epoch.\<close>

definition three_batches :: "int \<Rightarrow> nat list" where
  "three_batches e = [0, 1, 2]"

text \<open>A negative batch size, with a save frequency that no counter value of the run reaches.\<close>

definition backwards_opt :: opt where
  "backwards_opt = small_opt\<lparr>batch_size := - 1, save_latest_freq := 5000\<rparr>"

section \<open>The evaluation loop\<close>

subsection \<open>Tensors\<close>

text \<open>
  A tensor is a nested list, outermost axis first; the element type is left
  open, and copying an element does not change it.  \<^verbatim>\<open>torch.zeros\<close> raises for a
  negative dimension.
\<close>

type_synonym 'a mat = "'a list list"
type_synonym 'a vol = "'a list list list"

definition zeros :: "nat \<Rightarrow> nat \<Rightarrow> nat \<Rightarrow> ('a :: zero) vol" where
  "zeros s h w = replicate s (replicate h (replicate w 0))"

definition torch_zeros :: "nat \<Rightarrow> int \<Rightarrow> int \<Rightarrow> error + ('a :: zero) vol" where
  "torch_zeros s h w = (if h < 0 \<or> w < 0 then Inl RuntimeError else Inr (zeros s (nat h) (nat w)))"

definition is_mat :: "nat \<Rightarrow> nat \<Rightarrow> 'a mat \<Rightarrow> bool" where
  "is_mat h w m = (length m = h \<and> list_all (\<lambda>r. length r = w) m)"

text \<open>\<^verbatim>\<open>t[0, 0, :, :]\<close> on a four-axis tensor: the first two axes must not be empty.\<close>

definition first_plane :: "'a list list list list \<Rightarrow> error + 'a mat" where
  "first_plane t =
     (case t of
        [] \<Rightarrow> Inl IndexError
      | b # _ \<Rightarrow> (case b of [] \<Rightarrow> Inl IndexError | c # _ \<Rightarrow> Inr c))"

text \<open>
  Assigning a two-axis tensor to \<^verbatim>\<open>gen_vol[j, :, :]\<close> broadcasts it to the shape
  \<open>(D, D)\<close> of the slot: an axis of the source must have length \<open>D\<close> or 1, and an
  axis of length 1 is repeated.  Any other shape raises.
\<close>

definition fits :: "nat \<Rightarrow> 'b list \<Rightarrow> bool" where
  "fits n xs = (length xs = n \<or> length xs = 1)"

definition stretch :: "nat \<Rightarrow> 'b list \<Rightarrow> 'b list" where
  "stretch n xs = (if length xs = n then xs else replicate n (hd xs))"

definition uniform :: "'a mat \<Rightarrow> bool" where
  "uniform m = (case m of [] \<Rightarrow> True | r # rs \<Rightarrow> list_all (\<lambda>r'. length r' = length r) rs)"

definition broadcast2 :: "nat \<Rightarrow> 'a mat \<Rightarrow> error + 'a mat" where
  "broadcast2 D m =
     (if uniform m \<and> list_all (fits D) m \<and> fits D m
      then Inr (stretch D (map (stretch D) m))
      else Inl RuntimeError)"

definition set_plane :: "nat \<Rightarrow> 'a vol \<Rightarrow> nat \<Rightarrow> 'a mat \<Rightarrow> error + 'a vol" where
  "set_plane D v j x =
     (if j < length v then
        (case broadcast2 D x of Inl e \<Rightarrow> Inl e | Inr p \<Rightarrow> Inr (v[j := p]))
      else Inl IndexError)"

subsection \<open>Paths and files\<close>

text \<open>\<^verbatim>\<open>str(n)\<close> for a non-negative integer.\<close>

definition digit_char :: "nat \<Rightarrow> char" where
  "digit_char d = char_of (48 + d)"

fun str_nat :: "nat \<Rightarrow> string" where
  "str_nat n = (if n < 10 then [digit_char n] else str_nat (n div 10) @ [digit_char (n mod 10)])"

declare str_nat.simps [simp del]

text \<open>\<^verbatim>\<open>os.path.dirname\<close> (posixpath).\<close>

definition dirname :: "string \<Rightarrow> string" where
  "dirname p =
     (let head = rev (dropWhile (\<lambda>c. c \<noteq> CHR ''/'') (rev p)) in
      if list_all (\<lambda>c. c = CHR ''/'') head then head
      else rev (dropWhile (\<lambda>c. c = CHR ''/'') (rev head)))"

text \<open>
  The file system maps a path to a directory or to a file with its content.
  Paths are compared as strings.
\<close>

datatype 'a node = Dir | File 'a

type_synonym 'a filesys = "string \<Rightarrow> 'a node option"

datatype 'a artifact = TorchFile "'a vol" | NiftiFile "'a vol"

definition path_exists :: "'b filesys \<Rightarrow> string \<Rightarrow> bool" where
  "path_exists f p = (f p \<noteq> None)"

definition is_file :: "'b node option \<Rightarrow> bool" where
  "is_file n = (case n of Some (File _) \<Rightarrow> True | _ \<Rightarrow> False)"

text \<open>The proper prefixes of a path that end before a separator.\<close>

definition parents :: "string \<Rightarrow> string list" where
  "parents p = map (\<lambda>i. take i p) (filter (\<lambda>i. p ! i = CHR ''/'') [1..<length p])"

text \<open>
  \<^verbatim>\<open>os.makedirs(p)\<close>: raises when \<open>p\<close> exists, or when a prefix of it is a file;
  otherwise creates \<open>p\<close> and the missing directories above it.
\<close>

definition makedirs :: "string \<Rightarrow> 'b filesys \<Rightarrow> error + 'b filesys" where
  "makedirs p f =
     (if path_exists f p then Inl FileExistsError
      else if list_ex (\<lambda>q. is_file (f q)) (parents p) then Inl NotADirectoryError
      else Inr (\<lambda>q. if q = p \<or> (q \<in> set (parents p) \<and> f q = None) then Some Dir else f q))"

text \<open>Writing a file needs its directory; the file is created or overwritten.\<close>

definition write_file :: "string \<Rightarrow> 'b \<Rightarrow> 'b filesys \<Rightarrow> error + 'b filesys" where
  "write_file p a f =
     (case f (dirname p) of
        None \<Rightarrow> Inl FileNotFoundError
      | Some (File _) \<Rightarrow> Inl NotADirectoryError
      | Some Dir \<Rightarrow>
          (case f p of
             Some Dir \<Rightarrow> Inl IsADirectoryError
           | _ \<Rightarrow> Inr (f(p \<mapsto> File a))))"

subsection \<open>Collaborators\<close>

text \<open>
  The external functions that \<^verbatim>\<open>test\<close> calls, as parameters.  \<open>create_model\<close>
  stands for \<^verbatim>\<open>create_model\<close>, \<^verbatim>\<open>setup\<close> and \<^verbatim>\<open>eval\<close> together; \<open>batches\<close> is what
  iterating the dataset yields, and its length is \<^verbatim>\<open>len(dataset)\<close>.  They receive
  the namespace and are taken not to write to it.
\<close>

record ('ds, 'd, 'm, 'a) collab =
  find_grayscale_limits :: "string list \<Rightarrow> string \<Rightarrow> int \<times> int"
  create_dataset :: "opt \<Rightarrow> string \<Rightarrow> nat \<Rightarrow> string \<Rightarrow> 'ds"
  batches :: "'ds \<Rightarrow> 'd list"
  crop_volume :: "'ds \<Rightarrow> 'a vol \<Rightarrow> 'a vol"
  create_model :: "opt \<Rightarrow> 'ds \<Rightarrow> 'm"
  set_input :: "'d \<Rightarrow> 'm \<Rightarrow> 'm"
  run_test :: "'m \<Rightarrow> 'm"
  fake_B :: "'m \<Rightarrow> 'a list list list list"

text \<open>The calls of an evaluation run; a call that receives the namespace records it.\<close>

datatype ecall =
    Mkdir string
  | ReadCsv string
  | FindGrayscaleLimits "string list" string
  | PrintCase nat nat string
  | Makedirs string
  | CreateTestDataset opt string nat string
  | CreateModel opt
  | ModelSetup opt
  | ModelEval
  | SetInputSlice nat nat
  | ModelTest nat nat
  | GetVisuals nat nat
  | SaveSliceImages string nat nat
  | CropVolume nat
  | TorchSave string
  | SaveNifti string

text \<open>
  The state of the slice loop of one case, whose statements do not mention the
  namespace, and the state of the whole run: the namespace, the file system and
  the calls made so far.
\<close>

record ('m, 'a) sstate =
  model :: 'm
  gen_vol :: "'a vol"
  scalls :: "ecall list"

record 'a estate =
  ecfg :: opt
  files :: "'a artifact filesys"
  ecalls :: "ecall list"

definition plot_slice :: nat where
  "plot_slice = 100"

text \<open>Lines 142-148: one slice of case \<open>i\<close>.\<close>

definition slice_step ::
  "('ds, 'd, 'm, 'a) collab \<Rightarrow> nat \<Rightarrow> string \<Rightarrow> nat \<Rightarrow> nat \<times> 'd \<Rightarrow> ('m, 'a) sstate
     \<Rightarrow> ('m, 'a) sstate outcome" where
  "slice_step cb D save_fig_dir i b s =
     (let j = fst b;
          m1 = run_test cb (set_input cb (snd b) (model s));
          s1 = s\<lparr>model := m1, scalls := scalls s @ [SetInputSlice i j, ModelTest i j]\<rparr>
      in case first_plane (fake_B cb m1) of
           Inl e \<Rightarrow> Raised e s1
         | Inr x \<Rightarrow>
            (case set_plane D (gen_vol s1) j x of
               Inl e \<Rightarrow> Raised e s1
             | Inr v \<Rightarrow>
                 (let s2 = s1\<lparr>gen_vol := v\<rparr>
                  in if j = plot_slice
                     then Done (s2\<lparr>scalls := scalls s2 @ [GetVisuals i j, SaveSliceImages save_fig_dir j i]\<rparr>)
                     else Done s2)))"

fun slice_loop ::
  "('ds, 'd, 'm, 'a) collab \<Rightarrow> nat \<Rightarrow> string \<Rightarrow> nat \<Rightarrow> (nat \<times> 'd) list \<Rightarrow> ('m, 'a) sstate
     \<Rightarrow> ('m, 'a) sstate outcome" where
  "slice_loop cb D save_fig_dir i [] s = Done s"
| "slice_loop cb D save_fig_dir i (b # bs) s =
     and_then (slice_step cb D save_fig_dir i b s) (slice_loop cb D save_fig_dir i bs)"

text \<open>Lines 131-133: the directory of a case is created unless the path exists.\<close>

definition case_dir :: "string \<Rightarrow> nat \<Rightarrow> string" where
  "case_dir dd i = path_join dd [''generation'', ''case_'' @ str_nat i]"

definition ensure_dir :: "string \<Rightarrow> 'a estate \<Rightarrow> 'a estate outcome" where
  "ensure_dir d es =
     (if \<not> path_exists (files es) d then
        (case makedirs d (files es) of
           Inl e \<Rightarrow> Raised e es
         | Inr f \<Rightarrow> Done (es\<lparr>files := f, ecalls := ecalls es @ [Makedirs d]\<rparr>))
      else Done es)"

text \<open>Lines 154-158: the cropped volume is saved, and saved again as NIfTI if asked.\<close>

definition save_volume :: "opt \<Rightarrow> string \<Rightarrow> 'a vol \<Rightarrow> 'a estate \<Rightarrow> 'a estate outcome" where
  "save_volume opt d v es =
     (let pt = path_join d [''atme_vol.pt''] in
      case write_file pt (TorchFile v) (files es) of
        Inl e \<Rightarrow> Raised e es
      | Inr f \<Rightarrow>
         (let es1 = es\<lparr>files := f, ecalls := ecalls es @ [TorchSave pt]\<rparr> in
          if save_nifti opt then
            (let nii = path_join d [''atme_vol.nii.gz''] in
             case write_file nii (NiftiFile v) (files es1) of
               Inl e \<Rightarrow> Raised e es1
             | Inr f' \<Rightarrow> Done (es1\<lparr>files := f', ecalls := ecalls es1 @ [SaveNifti nii]\<rparr>))
          else Done es1))"

text \<open>
  Lines 140-151: the volume of a case.  The model is fresh; the volume is
  allocated with \<^verbatim>\<open>len(dataset)\<close> planes and filled by the slice loop.
\<close>

definition fill_volume ::
  "('ds, 'd, 'm, 'a :: zero) collab \<Rightarrow> opt \<Rightarrow> string \<Rightarrow> nat \<Rightarrow> 'ds \<Rightarrow> 'm \<Rightarrow> ecall list
     \<Rightarrow> ('m, 'a) sstate outcome" where
  "fill_volume cb opt save_fig_dir i dataset m0 cs =
     (case torch_zeros (length (batches cb dataset)) (vol_cube_dim opt) (vol_cube_dim opt) of
        Inl e \<Rightarrow> Raised e \<lparr>model = m0, gen_vol = [], scalls = cs\<rparr>
      | Inr v0 \<Rightarrow>
          slice_loop cb (nat (vol_cube_dim opt)) save_fig_dir i
            (enumerate 0 (batches cb dataset)) \<lparr>model = m0, gen_vol = v0, scalls = cs\<rparr>)"

text \<open>Lines 129-158: one case.  Reading \<^verbatim>\<open>opt.data_dir\<close> raises if the attribute is absent.\<close>

definition test_case ::
  "('ds, 'd, 'm, 'a :: zero) collab \<Rightarrow> opt \<Rightarrow> string \<Rightarrow> nat
     \<Rightarrow> nat \<times> string \<times> string \<Rightarrow> 'a estate \<Rightarrow> 'a estate outcome" where
  "test_case cb opt save_fig_dir n c es =
     (let i = fst c; cor_case = fst (snd c); ax_case = snd (snd c);
          es1 = es\<lparr>ecalls := ecalls es @ [PrintCase i n cor_case]\<rparr>
      in case data_dir opt of
           None \<Rightarrow> Raised AttributeError es1
         | Some dd \<Rightarrow>
            and_then (ensure_dir (case_dir dd i) es1) (\<lambda>es2.
              let dataset = create_dataset cb opt cor_case i ax_case;
                  m0 = create_model cb opt dataset;
                  cs = ecalls es2 @ [CreateTestDataset opt cor_case i ax_case, CreateModel opt,
                                     ModelSetup opt, ModelEval]
              in case fill_volume cb opt save_fig_dir i dataset m0 cs of
                   Raised e s \<Rightarrow> Raised e (es2\<lparr>ecalls := scalls s\<rparr>)
                 | Done s \<Rightarrow>
                     save_volume opt (case_dir dd i) (crop_volume cb dataset (gen_vol s))
                       (es2\<lparr>ecalls := scalls s @ [CropVolume i]\<rparr>)))"

text \<open>Lines 128-158: each case reads the namespace of the state it starts in.\<close>

fun case_loop ::
  "('ds, 'd, 'm, 'a :: zero) collab \<Rightarrow> string \<Rightarrow> nat
     \<Rightarrow> (nat \<times> string \<times> string) list \<Rightarrow> 'a estate \<Rightarrow> 'a estate outcome" where
  "case_loop cb save_fig_dir n [] es = Done es"
| "case_loop cb save_fig_dir n (c # cs) es =
     and_then (test_case cb (ecfg es) save_fig_dir n c es)
       (case_loop cb save_fig_dir n cs)"

text \<open>
  Lines 111-126: the writes to the option namespace.  \<open>cases_paths\<close> is the
  column of the manifest for the evaluation plane.
\<close>

definition test_dirs :: "opt \<Rightarrow> opt" where
  "test_dirs opt =
     (let opt1 = opt\<lparr>isTrain := False\<rparr>;
          opt2 = opt1\<lparr>save_dir := path_join (main_root opt1) [model_root opt1, exp_name opt1]\<rparr>
      in opt2\<lparr>data_dir := Some (path_join (main_root opt2) [model_root opt2, data_name opt2])\<rparr>)"

definition set_limits :: "('ds, 'd, 'm, 'a) collab \<Rightarrow> string list \<Rightarrow> opt \<Rightarrow> opt" where
  "set_limits cb cases_paths opt =
     (if global_min opt = 0 \<and> global_max opt = 0 then
        (case find_grayscale_limits cb cases_paths (data_format opt) of
           (lo, hi) \<Rightarrow> opt\<lparr>global_min := lo, global_max := hi\<rparr>)
      else opt)"

definition test_fig_dir :: "opt \<Rightarrow> string" where
  "test_fig_dir opt = path_join (save_dir opt) [''figures'', ''test'']"

definition setup_calls :: "string list \<Rightarrow> opt \<Rightarrow> ecall list" where
  "setup_calls cases_paths opt =
     [Mkdir (test_fig_dir opt), ReadCsv (csv_name opt)] @
     (if global_min opt = 0 \<and> global_max opt = 0
      then [FindGrayscaleLimits cases_paths (data_format opt)] else [])"

text \<open>
  \<^verbatim>\<open>test(opt)\<close>: the namespace as the run leaves it, and the outcome of the case
  loop.  \<open>manifest\<close> is the table that \<^verbatim>\<open>read_csv\<close> returns: for each case the
  path in the evaluation plane and the axial path.  \<open>f0\<close> is the file system the
  run starts with.  \<^verbatim>\<open>save_fig_dir\<close> is computed before the range is set.
\<close>

definition test ::
  "('ds, 'd, 'm, 'a :: zero) collab \<Rightarrow> (string \<times> string) list \<Rightarrow> 'a artifact filesys \<Rightarrow> opt
     \<Rightarrow> opt \<times> 'a estate outcome" where
  "test cb manifest f0 opt =
     (let opt1 = test_dirs opt;
          save_fig_dir = test_fig_dir opt1;
          cases_paths = map fst manifest;
          es0 = \<lparr>ecfg = set_limits cb cases_paths opt1, files = f0,
                 ecalls = setup_calls cases_paths opt1\<rparr>;
          r = case_loop cb save_fig_dir (length cases_paths) (enumerate 0 manifest) es0
      in (ecfg (outcome_state r), r))"

subsection \<open>Reading an evaluation run\<close>

text \<open>The model after it has been fed the given slices, one inference each.\<close>

definition model_after :: "('ds, 'd, 'm, 'a) collab \<Rightarrow> 'm \<Rightarrow> 'd list \<Rightarrow> 'm" where
  "model_after cb m ds = foldl (\<lambda>m d. run_test cb (set_input cb d m)) m ds"

text \<open>\<^verbatim>\<open>model.fake_B[0, 0, :, :]\<close> after inference on slice \<open>j\<close> of the case.\<close>

definition inferred :: "('ds, 'd, 'm, 'a) collab \<Rightarrow> 'm \<Rightarrow> 'd list \<Rightarrow> nat \<Rightarrow> error + 'a mat" where
  "inferred cb m0 ds j = first_plane (fake_B cb (model_after cb m0 (take (Suc j) ds)))"

definition is_find_limits :: "ecall \<Rightarrow> bool" where
  "is_find_limits c = (case c of FindGrayscaleLimits _ _ \<Rightarrow> True | _ \<Rightarrow> False)"

text \<open>The namespace a call received, if it received one.\<close>

fun opt_seen :: "ecall \<Rightarrow> opt list" where
  "opt_seen (CreateTestDataset opt c i a) = [opt]"
| "opt_seen (CreateModel opt) = [opt]"
| "opt_seen (ModelSetup opt) = [opt]"
| "opt_seen _ = []"

text \<open>A call made while the cases are processed: no range computation, and the namespace is \<open>opt\<close>.\<close>

definition during_cases :: "opt \<Rightarrow> ecall \<Rightarrow> bool" where
  "during_cases opt c = (\<not> is_find_limits c \<and> list_all (\<lambda>opt'. opt' = opt) (opt_seen c))"

text \<open>
  A small instance of the collaborators: five slices per case, a model that
  remembers the number of the last slice fed, and a \<open>2 \<times> 2\<close> output holding it.
\<close>

definition example_collab :: "(nat, nat, nat, int) collab" where
  "example_collab =
     \<lparr>find_grayscale_limits = (\<lambda>ps fmt. (- 1000, 3000)),
      create_dataset = (\<lambda>opt c i a. i),
      batches = (\<lambda>ds. [0, 1, 2, 3, 4]),
      crop_volume = (\<lambda>ds v. v),
      create_model = (\<lambda>opt ds. 0),
      set_input = (\<lambda>d m. Suc d),
      run_test = (\<lambda>m. m),
      fake_B = (\<lambda>m. [[replicate 2 (replicate 2 (int m))]])\<rparr>"

definition example_eval_opt :: opt where
  "example_eval_opt = default_opt\<lparr>isTrain := False, vol_cube_dim := 2, save_nifti := False\<rparr>"

text \<open>A manifest of two cases.\<close>

definition example_manifest :: "(string \<times> string) list" where
  "example_manifest = [(''cor_0.nii'', ''ax_0.nii''), (''cor_1.nii'', ''ax_1.nii'')]"

text \<open>The calls made inside the slice loop.\<close>

definition is_slice_call :: "ecall \<Rightarrow> bool" where
  "is_slice_call c =
     (case c of
        SetInputSlice _ _ \<Rightarrow> True
      | ModelTest _ _ \<Rightarrow> True
      | GetVisuals _ _ \<Rightarrow> True
      | SaveSliceImages _ _ _ \<Rightarrow> True
      | _ \<Rightarrow> False)"

text \<open>
  A file system left by an earlier evaluation of case 0 that saved NIfTI: the
  directory of the case and the volume of \<open>example_collab\<close> in it.
\<close>

definition example_volume :: "int vol" where
  "example_volume = map (\<lambda>k. replicate 2 (replicate 2 k)) [1, 2, 3, 4, 5]"

definition stale_files :: "int artifact filesys" where
  "stale_files =
     [''outputs/simple_output/data/generation/case_0'' \<mapsto> Dir,
      ''outputs/simple_output/data/generation/case_0/atme_vol.nii.gz''
        \<mapsto> File (NiftiFile example_volume)]"

section \<open>Lemmas about the training loop\<close>

subsection \<open>The pieces of a batch step\<close>

lemma and_then_Done:
  "and_then r f = Done s' \<Longrightarrow> \<exists>s1. r = Done s1 \<and> f s1 = Done s'"
  by (cases r) (simp_all add: and_then_def)

lemma py_mod_Inr: "py_mod a b = Inr r \<Longrightarrow> b \<noteq> 0 \<and> r = a mod b"
  by (simp add: py_mod_def split: if_splits)

lemma py_mod_Inl: "py_mod a b = Inl e \<Longrightarrow> b = 0 \<and> e = ZeroDivisionError"
  by (auto simp add: py_mod_def split: if_splits)

lemma bind_t_data_Done:
  assumes "bind_t_data opt s = Done s'"
  shows "s' = (if total_iters s mod print_freq opt = 0 then s\<lparr>t_data := Some ()\<rparr> else s)"
    and "print_freq opt \<noteq> 0"
  using assms by (auto simp: bind_t_data_def split: sum.splits dest: py_mod_Inr)

lemma advance_log:
  "log (advance opt e d s) = log s @
     [Entry e (total_iters s + batch_size opt) (SetInput d (if has_n_save_noisy opt then Some e else None)),
      Entry e (total_iters s + batch_size opt) OptimizeParameters]"
  by (simp add: advance_def emit_def Let_def)

lemma advance_fields:
  "total_iters (advance opt e d s) = total_iters s + batch_size opt"
  "epoch_iter (advance opt e d s) = epoch_iter s + batch_size opt"
  "t_data (advance opt e d s) = t_data s"
  "rng_pos (advance opt e d s) = rng_pos s"
  "cfg (advance opt e d s) = cfg s"
  by (simp_all add: advance_def emit_def Let_def)

lemma display_check_Done:
  assumes "display_check opt e s = Done s'"
  shows "s' = (if total_iters s mod display_freq opt = 0 then emit e ComputeVisuals s else s)"
    and "display_freq opt \<noteq> 0"
  using assms by (auto simp: display_check_def split: sum.splits if_splits dest: py_mod_Inr)

lemma print_check_Done:
  assumes "print_check opt e s = Done s'"
  shows "s' = (if total_iters s mod print_freq opt = 0
               then emit e (PrintCurrentLosses e (epoch_iter s)) (emit e GetCurrentLosses s) else s)"
    and "print_freq opt \<noteq> 0"
  using assms
  by (auto simp: print_check_def Let_def emit_def split: sum.splits if_splits option.splits dest: py_mod_Inr)

lemma save_latest_check_Done:
  assumes "save_latest_check draws opt dir e i s = Done s'"
  shows "s' = (if total_iters s mod save_latest_freq opt = 0
               then s\<lparr>rng_pos := (if batch_size opt = 1 then rng_pos s else Suc (rng_pos s)),
                  log := log s @
                  [Entry e (total_iters s) (PrintSavingLatest e (total_iters s)),
                   Entry e (total_iters s) (SaveNetworks (if save_by_iter opt then Iter (total_iters s) else Latest)),
                   Entry e (total_iters s) GetCurrentVisuals,
                   Entry e (total_iters s) (SaveAtmeImages dir
                      (if batch_size opt = 1 then int i
                       else int (draws (rng_pos s)) mod (batch_size opt + 1)) (total_iters s) e)]\<rparr> else s)"
    and "save_latest_freq opt \<noteq> 0"
  using assms
  by (auto simp: save_latest_check_def Let_def emit_def randint_def randbelow_def split: sum.splits if_splits option.splits dest: py_mod_Inr)


lemma emit_fields:
  "total_iters (emit e c s) = total_iters s"
  "epoch_iter (emit e c s) = epoch_iter s"
  "t_data (emit e c s) = t_data s"
  "rng_pos (emit e c s) = rng_pos s"
  "cfg (emit e c s) = cfg s"
  "log (emit e c s) = log s @ [Entry e (total_iters s) c]"
  by (simp_all add: emit_def)


lemma fired_append: "fired P (a @ b) = fired P a @ fired P b"
  by (simp add: fired_def)

lemma fired_Nil: "fired P [] = []"
  by (simp add: fired_def)

lemma fired_Cons: "fired P (x # l) = (if P (call x) then at_iters x # fired P l else fired P l)"
  by (simp add: fired_def)

subsection \<open>Adjacent calls\<close>

lemma adjacent_Nil: "adjacent [] = []"
  by (simp add: adjacent_def)

lemma adjacent_single: "adjacent [x] = []"
  by (simp add: adjacent_def)

lemma adjacent_Cons2: "adjacent (x # y # l) = (x, y) # adjacent (y # l)"
  by (simp add: adjacent_def)

lemma adjacent_append:
  "a \<noteq> [] \<Longrightarrow> b \<noteq> [] \<Longrightarrow> adjacent (a @ b) = adjacent a @ (last a, hd b) # adjacent b"
proof (induction a rule: list_nonempty_induct)
  case (single x)
  then obtain y l where "b = y # l" by (cases b) auto
  then show ?case by (simp add: adjacent_def)
next
  case (cons x a)
  from cons.hyps obtain y l where a: "a = y # l" by (cases a) auto
  have "adjacent ((x # a) @ b) = (x, y) # adjacent (a @ b)"
    by (simp add: a adjacent_Cons2)
  also have "\<dots> = (x, y) # adjacent a @ (last a, hd b) # adjacent b"
    using cons.IH [OF cons.prems] by simp
  also have "\<dots> = adjacent (x # a) @ (last (x # a), hd b) # adjacent b"
    using cons.hyps by (simp add: a adjacent_Cons2)
  finally show ?case .
qed

lemma fired_pair_Nil: "fired_pair P Q [] = []"
  by (simp add: fired_pair_def adjacent_def)

lemma fired_pair_single: "fired_pair P Q [x] = []"
  by (simp add: fired_pair_def adjacent_def)

lemma fired_pair_Cons2:
  "fired_pair P Q (x # y # l) =
     (if P (call x) \<and> Q y then at_iters y # fired_pair P Q (y # l) else fired_pair P Q (y # l))"
  by (simp add: fired_pair_def adjacent_Cons2)

lemma fired_pair_append:
  assumes "a = [] \<or> \<not> P (call (last a))"
  shows "fired_pair P Q (a @ b) = fired_pair P Q a @ fired_pair P Q b"
proof (cases "a = [] \<or> b = []")
  case True
  then show ?thesis by (auto simp: fired_pair_Nil)
next
  case False
  with assms have "\<not> P (call (last a))" by simp
  with False show ?thesis by (simp add: fired_pair_def adjacent_append)
qed

lemma ends_ok_last:
  "ends_ok l \<longleftrightarrow> l = [] \<or> (\<not> is_saving_latest (call (last l)) \<and> \<not> is_get_losses (call (last l)))"
  by (cases l rule: rev_cases) (simp_all add: ends_ok_def)

lemma ends_ok_append: "ends_ok a \<Longrightarrow> ends_ok b \<Longrightarrow> ends_ok (a @ b)"
  by (cases "b = []") (simp_all add: ends_ok_last)

lemma cadences_ok_append:
  assumes "cadences_ok opt a" and "cadences_ok opt b"
  shows "cadences_ok opt (a @ b)"
proof -
  from assms(1) have ea: "ends_ok a" by (simp add: cadences_ok_def)
  then have p1: "a = [] \<or> \<not> is_saving_latest (call (last a))"
    and p2: "a = [] \<or> \<not> is_get_losses (call (last a))"
    by (auto simp: ends_ok_last)
  from assms(2) have eb: "ends_ok b" by (simp add: cadences_ok_def)
  show ?thesis
    using assms ends_ok_append [OF ea eb]
    by (simp add: cadences_ok_def steps_def fired_append
        fired_pair_append [where a = a and P = is_saving_latest, OF p1]
        fired_pair_append [where a = a and P = is_get_losses, OF p2])
qed

lemma cadences_ok_Nil: "cadences_ok opt []"
  by (simp add: cadences_ok_def steps_def fired_Nil fired_pair_Nil ends_ok_def)

lemmas is_defs = is_display_def is_print_def is_save_latest_def is_optimize_def
  is_update_lr_def is_set_input_def is_saving_latest_def is_get_losses_def is_get_visuals_def

lemmas pair_simps = fired_pair_Nil fired_pair_single fired_pair_Cons2 saves_networks_def
  prints_losses_def ends_ok_def

lemma batch_step_Done:
  fixes s :: "'a tstate"
  assumes "batch_step draws dir e b s = Done s'" and c: "cfg s = opt"
  shows "total_iters s' = total_iters s + batch_size opt"
    and "cfg s' = opt"
    and "\<exists>new. log s' = log s @ new \<and> steps new = [total_iters s']
           \<and> cadences_ok opt new
           \<and> (\<forall>x\<in>set new. at_epoch x = e \<and> \<not> is_update_lr (call x))
           \<and> (\<exists>rest. map call new = SetInput (snd b) (if has_n_save_noisy opt then Some e else None) # OptimizeParameters # rest)"
proof -
  from assms(1) obtain s1 s2 s3 where
    1: "bind_t_data (cfg s) s = Done s1" and
    2: "display_check (cfg s1) e (advance (cfg s1) e (snd b) s1) = Done s2" and
    3: "print_check (cfg s2) e s2 = Done s3" and
    4: "save_latest_check draws (cfg s3) dir e (fst b) s3 = Done s'"
    unfolding batch_step_def by (blast dest: and_then_Done)
  have c1: "cfg s1 = opt"
    using bind_t_data_Done(1) [OF 1] c by (simp split: if_splits)
  have c2: "cfg s2 = opt"
    using display_check_Done(1) [OF 2] c1 by (simp add: advance_fields emit_fields split: if_splits)
  have c3: "cfg s3 = opt"
    using print_check_Done(1) [OF 3] c2 by (simp add: emit_fields split: if_splits)
  show c4: "cfg s' = opt"
    using save_latest_check_Done(1) [OF 4] c3 by (simp split: if_splits)
  note e1 = bind_t_data_Done(1) [OF 1 [unfolded c]]
  note e2 = display_check_Done(1) [OF 2 [unfolded c1]]
  note e3 = print_check_Done(1) [OF 3 [unfolded c2]]
  note e4 = save_latest_check_Done(1) [OF 4 [unfolded c3]]
  have t1: "total_iters s1 = total_iters s" and l1: "log s1 = log s"
    using e1 by (simp_all split: if_splits)
  have t2: "total_iters s2 = total_iters s + batch_size opt"
    using e2 t1 by (simp add: advance_fields emit_fields split: if_splits)
  have t3: "total_iters s3 = total_iters s2"
    using e3 by (simp add: emit_fields split: if_splits)
  have t4: "total_iters s' = total_iters s3"
    using e4 by (simp split: if_splits)
  show tt: "total_iters s' = total_iters s + batch_size opt"
    using t2 t3 t4 by simp
  define t where "t = total_iters s + batch_size opt"
  define A where "A = [Entry e t (SetInput (snd b) (if has_n_save_noisy opt then Some e else None)),
      Entry e t OptimizeParameters] @ (if t mod display_freq opt = 0 then [Entry e t ComputeVisuals] else [])"
  define B :: "'a entry list" where "B = (if t mod print_freq opt = 0 then
       [Entry e t GetCurrentLosses, Entry e t (PrintCurrentLosses e (epoch_iter s2))] else [])"
  define C :: "'a entry list" where "C = (if t mod save_latest_freq opt = 0 then
       [Entry e t (PrintSavingLatest e t),
        Entry e t (SaveNetworks (if save_by_iter opt then Iter t else Latest)),
        Entry e t GetCurrentVisuals,
        Entry e t (SaveAtmeImages dir
                      (if batch_size opt = 1 then int (fst b)
                       else int (draws (rng_pos s3)) mod (batch_size opt + 1)) t e)] else [])"
  have l2: "log s2 = log s @ A"
    using e2 t1 l1 by (simp add: A_def t_def advance_log advance_fields emit_fields)
  have l3: "log s3 = log s2 @ B"
    using e3 t2 by (simp add: B_def t_def emit_fields)
  have l4: "log s' = log s3 @ C"
    using e4 t2 t3 by (simp add: C_def t_def)
  have l: "log s' = log s @ (A @ B @ C)" using l2 l3 l4 by simp
  have st: "steps (A @ B @ C) = [total_iters s']"
    by (simp add: A_def B_def C_def steps_def fired_append fired_Cons fired_Nil is_defs tt t_def)
  have cd: "cadences_ok opt (A @ B @ C)"
    by (simp add: cadences_ok_def A_def B_def C_def steps_def fired_Cons fired_Nil is_defs pair_simps)
  have ep: "\<forall>x\<in>set (A @ B @ C). at_epoch x = e \<and> \<not> is_update_lr (call x)"
    by (auto simp: A_def B_def C_def is_defs)
  have hd: "\<exists>rest. map call (A @ B @ C) = SetInput (snd b) (if has_n_save_noisy opt then Some e else None) # OptimizeParameters # rest"
    by (simp add: A_def)
  show "\<exists>new. log s' = log s @ new \<and> steps new = [total_iters s']
           \<and> cadences_ok opt new
           \<and> (\<forall>x\<in>set new. at_epoch x = e \<and> \<not> is_update_lr (call x))
           \<and> (\<exists>rest. map call new = SetInput (snd b) (if has_n_save_noisy opt then Some e else None) # OptimizeParameters # rest)"
    by (rule exI [of _ "A @ B @ C"]) (intro conjI l st cd ep hd)
qed


subsection \<open>Counter values\<close>

lemma counter_values_0: "counter_values t b 0 = []"
  by (simp add: counter_values_def)

lemma counter_values_Suc: "counter_values t b (Suc n) = (t + b) # counter_values (t + b) b n"
proof -
  have "[1..<Suc (Suc n)] = 1 # map Suc [1..<Suc n]"
    by (simp add: map_Suc_upt upt_conv_Cons del: upt_Suc)
  then have "counter_values t b (Suc n) = (t + b) # map ((\<lambda>k. t + int k * b) \<circ> Suc) [1..<Suc n]"
    unfolding counter_values_def by (simp del: upt_Suc)
  also have "map ((\<lambda>k. t + int k * b) \<circ> Suc) [1..<Suc n] = counter_values (t + b) b n"
    unfolding counter_values_def by (rule map_cong) (simp_all add: algebra_simps)
  finally show ?thesis .
qed

lemma counter_values_append:
  "counter_values t b (n + m) = counter_values t b n @ counter_values (t + int n * b) b m"
proof (induction n arbitrary: t)
  case 0
  then show ?case by (simp add: counter_values_0)
next
  case (Suc n)
  have "counter_values t b (Suc n + m) = (t + b) # counter_values (t + b) b (n + m)"
    by (simp add: counter_values_Suc)
  also have "\<dots> = (t + b) # counter_values (t + b) b n @ counter_values (t + b + int n * b) b m"
    by (simp add: Suc.IH)
  also have "\<dots> = counter_values t b (Suc n) @ counter_values (t + int (Suc n) * b) b m"
    by (simp add: counter_values_Suc algebra_simps)
  finally show ?case .
qed

lemma counter_values_sorted: "0 < b \<Longrightarrow> sorted_wrt (<) (counter_values t b n)"
  unfolding counter_values_def
  by (simp add: sorted_wrt_map sorted_wrt_upt del: upt_Suc)

lemma counter_values_length: "length (counter_values t b n) = n"
  by (simp add: counter_values_def del: upt_Suc)

subsection \<open>The batch loop\<close>

lemma steps_append: "steps (a @ b) = steps a @ steps b"
  by (simp add: steps_def fired_append)

lemma batch_loop_Done:
  fixes s :: "'a tstate"
  assumes "batch_loop draws dir e bs s = Done s'" and "cfg s = opt"
  shows "total_iters s' = total_iters s + int (length bs) * batch_size opt
     \<and> cfg s' = opt
     \<and> (\<exists>new. log s' = log s @ new
           \<and> steps new = counter_values (total_iters s) (batch_size opt) (length bs)
           \<and> cadences_ok opt new
           \<and> (\<forall>x\<in>set new. at_epoch x = e \<and> \<not> is_update_lr (call x)))"
  using assms
proof (induction bs arbitrary: s)
  case Nil
  then show ?case
    by (simp add: counter_values_0 cadences_ok_Nil steps_def fired_Nil)
next
  case (Cons b bs)
  from Cons.prems obtain s1 where
    1: "batch_step draws dir e b s = Done s1" and
    2: "batch_loop draws dir e bs s1 = Done s'"
    by (auto dest: and_then_Done)
  note t1 = batch_step_Done(1) [OF 1 Cons.prems(2)]
  note c1 = batch_step_Done(2) [OF 1 Cons.prems(2)]
  from batch_step_Done(3) [OF 1 Cons.prems(2)] obtain a where
    a: "log s1 = log s @ a" "steps a = [total_iters s1]" "cadences_ok opt a"
       "\<forall>x\<in>set a. at_epoch x = e \<and> \<not> is_update_lr (call x)"
    by blast
  from Cons.IH [OF 2 c1] obtain c where
    t2: "total_iters s' = total_iters s1 + int (length bs) * batch_size opt" and
    c2: "cfg s' = opt" and
    c: "log s' = log s1 @ c"
       "steps c = counter_values (total_iters s1) (batch_size opt) (length bs)"
       "cadences_ok opt c"
       "\<forall>x\<in>set c. at_epoch x = e \<and> \<not> is_update_lr (call x)"
    by blast
  have tt: "total_iters s' = total_iters s + int (length (b # bs)) * batch_size opt"
    using t1 t2 by (simp add: algebra_simps)
  have l: "log s' = log s @ (a @ c)" using a(1) c(1) by simp
  have st: "steps (a @ c) = counter_values (total_iters s) (batch_size opt) (length (b # bs))"
    using a(2) c(2) t1 by (simp add: steps_append counter_values_Suc)
  have cd: "cadences_ok opt (a @ c)" using a(3) c(3) by (rule cadences_ok_append)
  have ep: "\<forall>x\<in>set (a @ c). at_epoch x = e \<and> \<not> is_update_lr (call x)"
    using a(4) c(4) by auto
  have "\<exists>new. log s' = log s @ new
           \<and> steps new = counter_values (total_iters s) (batch_size opt) (length (b # bs))
           \<and> cadences_ok opt new
           \<and> (\<forall>x\<in>set new. at_epoch x = e \<and> \<not> is_update_lr (call x))"
    by (rule exI [of _ "a @ c"]) (intro conjI l st cd ep)
  with tt c2 show ?case by blast
qed

subsection \<open>One epoch\<close>

lemma epoch_end_Done:
  fixes s :: "'a tstate"
  assumes "epoch_end opt e s = Done s'"
  shows "total_iters s' = total_iters s \<and> t_data s' = t_data s \<and> cfg s' = cfg s
     \<and> (\<exists>new. log s' = log s @ new \<and> steps new = [] \<and> cadences_ok opt new
           \<and> (\<forall>x\<in>set new. at_epoch x = e \<and> \<not> is_update_lr (call x)))"
proof -
  from assms obtain r where r: "py_mod e (save_epoch_freq opt) = Inr r"
    by (auto simp: epoch_end_def split: sum.splits)
  define new :: "'a entry list" where "new =
     (if r = 0 then [Entry e (total_iters s) (PrintSavingEpoch e (total_iters s)),
                     Entry e (total_iters s) (SaveNetworks Latest),
                     Entry e (total_iters s) (SaveNetworks (Epoch e))] else []) @
     [Entry e (total_iters s) GetCurrentLosses, Entry e (total_iters s) SaveDLosses,
      Entry e (total_iters s) GetCurrentLosses, Entry e (total_iters s) (SaveToTensorboard e),
      Entry e (total_iters s) (PrintEndOfEpoch e (n_epochs opt + n_epochs_decay opt))]"
  have s': "total_iters s' = total_iters s" "t_data s' = t_data s" "log s' = log s @ new"
    "cfg s' = cfg s"
    using assms r by (auto simp: epoch_end_def Let_def emit_fields new_def)
  have st: "steps new = []"
    by (simp add: new_def steps_def fired_append fired_Cons fired_Nil is_defs)
  have cd: "cadences_ok opt new"
    by (simp add: new_def cadences_ok_def steps_def fired_Cons fired_Nil is_defs pair_simps)
  have ep: "\<forall>x\<in>set new. at_epoch x = e \<and> \<not> is_update_lr (call x)"
    by (auto simp: new_def is_defs)
  have "\<exists>new. log s' = log s @ new \<and> steps new = [] \<and> cadences_ok opt new
           \<and> (\<forall>x\<in>set new. at_epoch x = e \<and> \<not> is_update_lr (call x))"
    by (rule exI [of _ new]) (intro conjI s'(3) st cd ep)
  with s' show ?thesis by blast
qed

lemma lr_first_iff:
  "lr_first cs \<longleftrightarrow> (\<exists>rest. cs = VisReset # UpdateLearningRate # rest \<and> list_all (\<lambda>c. \<not> is_update_lr c) rest)"
  by (induction cs rule: lr_first.induct) simp_all

lemma epoch_step_Done:
  fixes s :: "'a tstate"
  assumes "epoch_step draws dir ds e s = Done s'" and "cfg s = opt"
  shows "total_iters s' = total_iters s + int (length (ds e)) * batch_size opt
     \<and> cfg s' = opt
     \<and> (\<exists>new. log s' = log s @ new
           \<and> steps new = counter_values (total_iters s) (batch_size opt) (length (ds e))
           \<and> cadences_ok opt new
           \<and> (\<forall>x\<in>set new. at_epoch x = e)
           \<and> lr_first (map call new))"
proof -
  define s0 where "s0 = emit e UpdateLearningRate (emit e VisReset (s\<lparr>epoch_iter := 0\<rparr>))"
  from assms(1) obtain s1 where
    1: "batch_loop draws dir e (enumerate 0 (ds e)) s0 = Done s1" and
    ee: "epoch_end (cfg s1) e s1 = Done s'"
    unfolding epoch_step_def Let_def s0_def by (blast dest: and_then_Done)
  have c0: "cfg s0 = opt" using assms(2) by (simp add: s0_def emit_fields)
  have t0: "total_iters s0 = total_iters s"
    and l0: "log s0 = log s @ [Entry e (total_iters s) VisReset, Entry e (total_iters s) UpdateLearningRate]"
    by (simp_all add: s0_def emit_fields)
  from batch_loop_Done [OF 1 c0] obtain a where
    t1: "total_iters s1 = total_iters s0 + int (length (ds e)) * batch_size opt" and
    c1: "cfg s1 = opt" and
    a: "log s1 = log s0 @ a"
       "steps a = counter_values (total_iters s0) (batch_size opt) (length (ds e))"
       "cadences_ok opt a"
       "\<forall>x\<in>set a. at_epoch x = e \<and> \<not> is_update_lr (call x)"
    by auto
  note 2 = ee [unfolded c1]
  from epoch_end_Done [OF 2] obtain c where
    t2: "total_iters s' = total_iters s1" and
    c2: "cfg s' = cfg s1" and
    c: "log s' = log s1 @ c" "steps c = []" "cadences_ok opt c"
       "\<forall>x\<in>set c. at_epoch x = e \<and> \<not> is_update_lr (call x)"
    by blast
  define new where "new = [Entry e (total_iters s) VisReset, Entry e (total_iters s) UpdateLearningRate] @ a @ c"
  have tt: "total_iters s' = total_iters s + int (length (ds e)) * batch_size opt"
    using t0 t1 t2 by simp
  have l: "log s' = log s @ new" using l0 a(1) c(1) by (simp add: new_def)
  have st: "steps new = counter_values (total_iters s) (batch_size opt) (length (ds e))"
    using a(2) c(2) t0
    by (simp add: new_def steps_def fired_append fired_Cons fired_Nil is_defs)
  have "cadences_ok opt [Entry e (total_iters s) VisReset, Entry e (total_iters s) UpdateLearningRate]"
    by (simp add: cadences_ok_def steps_def fired_Cons fired_Nil is_defs pair_simps)
  then have cd: "cadences_ok opt new"
    unfolding new_def using a(3) c(3) by (intro cadences_ok_append)
  have ep: "\<forall>x\<in>set new. at_epoch x = e" using a(4) c(4) by (auto simp: new_def)
  have rs: "lr_first (map call new)"
    unfolding lr_first_iff list_all_iff
    by (rule exI [of _ "map call (a @ c)"]) (use a(4) c(4) in \<open>auto simp: new_def\<close>)
  have "\<exists>new. log s' = log s @ new
           \<and> steps new = counter_values (total_iters s) (batch_size opt) (length (ds e))
           \<and> cadences_ok opt new
           \<and> (\<forall>x\<in>set new. at_epoch x = e)
           \<and> lr_first (map call new)"
    by (rule exI [of _ new]) (intro conjI l st cd ep rs)
  with tt c1 c2 show ?thesis by simp
qed


subsection \<open>The epoch loop\<close>

lemma epoch_calls_append: "epoch_calls e (a @ b) = epoch_calls e a @ epoch_calls e b"
  by (simp add: epoch_calls_def)

lemma epoch_calls_all: "\<forall>x\<in>set l. at_epoch x = e \<Longrightarrow> epoch_calls e l = map call l"
  by (simp add: epoch_calls_def)

lemma epoch_calls_none: "\<forall>x\<in>set l. at_epoch x \<noteq> e \<Longrightarrow> epoch_calls e l = []"
  by (simp add: epoch_calls_def)

lemma n_batches_Cons: "n_batches ds (e # es) = length (ds e) + n_batches ds es"
  by (simp add: n_batches_def)


lemma epoch_loop_Done:
  fixes s :: "'a tstate"
  assumes "epoch_loop draws dir ds es s = Done s'" and "cfg s = opt"
  shows "total_iters s' = total_iters s + int (n_batches ds es) * batch_size opt
     \<and> cfg s' = opt
     \<and> (\<exists>new. log s' = log s @ new
           \<and> steps new = counter_values (total_iters s) (batch_size opt) (n_batches ds es)
           \<and> cadences_ok opt new
           \<and> (\<forall>x\<in>set new. at_epoch x \<in> set es)
           \<and> length (filter is_update_lr (map call new)) = length es
           \<and> (distinct es \<longrightarrow> (\<forall>e\<in>set es. lr_first (epoch_calls e new))))"
  using assms
proof (induction es arbitrary: s)
  case Nil
  then show ?case
    by (simp add: counter_values_0 cadences_ok_Nil steps_def fired_Nil n_batches_def)
next
  case (Cons e es)
  from Cons.prems obtain s1 where
    1: "epoch_step draws dir ds e s = Done s1" and
    2: "epoch_loop draws dir ds es s1 = Done s'"
    by (auto dest: and_then_Done)
  from epoch_step_Done [OF 1 Cons.prems(2)] obtain a where
    t1: "total_iters s1 = total_iters s + int (length (ds e)) * batch_size opt" and
    c1: "cfg s1 = opt" and
    a: "log s1 = log s @ a"
       "steps a = counter_values (total_iters s) (batch_size opt) (length (ds e))"
       "cadences_ok opt a"
       "\<forall>x\<in>set a. at_epoch x = e"
       "lr_first (map call a)"
    by blast
  from Cons.IH [OF 2 c1] obtain c where
    t2: "total_iters s' = total_iters s1 + int (n_batches ds es) * batch_size opt" and
    c2: "cfg s' = opt" and
    c: "log s' = log s1 @ c"
       "steps c = counter_values (total_iters s1) (batch_size opt) (n_batches ds es)"
       "cadences_ok opt c"
       "\<forall>x\<in>set c. at_epoch x \<in> set es"
       "distinct es \<longrightarrow> (\<forall>e\<in>set es. lr_first (epoch_calls e c))"
       "length (filter is_update_lr (map call c)) = length es"
    by blast
  have tt: "total_iters s' = total_iters s + int (n_batches ds (e # es)) * batch_size opt"
    using t1 t2 by (simp add: n_batches_Cons algebra_simps)
  have l: "log s' = log s @ (a @ c)" using a(1) c(1) by simp
  have st: "steps (a @ c) = counter_values (total_iters s) (batch_size opt) (n_batches ds (e # es))"
    using a(2) c(2) t1 by (simp add: steps_append n_batches_Cons counter_values_append)
  have cd: "cadences_ok opt (a @ c)" using a(3) c(3) by (rule cadences_ok_append)
  have ep: "\<forall>x\<in>set (a @ c). at_epoch x \<in> set (e # es)"
    using a(4) c(4) by auto
  have "length (filter is_update_lr (map call a)) = 1"
    using a(5) by (auto simp: lr_first_iff list_all_iff filter_empty_conv is_defs)
  then have lc: "length (filter is_update_lr (map call (a @ c))) = length (e # es)"
    using c(6) by simp
  have lr: "distinct (e # es) \<longrightarrow> (\<forall>e'\<in>set (e # es). lr_first (epoch_calls e' (a @ c)))"
  proof (intro impI ballI)
    fix e' assume d: "distinct (e # es)" and e': "e' \<in> set (e # es)"
    show "lr_first (epoch_calls e' (a @ c))"
    proof (cases "e' = e")
      case True
      have "epoch_calls e c = []"
        using c(4) d by (intro epoch_calls_none) auto
      then show ?thesis
        using True a(4) a(5) by (simp add: epoch_calls_append epoch_calls_all)
    next
      case False
      then have "e' \<in> set es" using e' by simp
      moreover have "epoch_calls e' a = []"
        using a(4) False by (intro epoch_calls_none) auto
      ultimately show ?thesis
        using c(5) d by (simp add: epoch_calls_append)
    qed
  qed
  have "\<exists>new. log s' = log s @ new
           \<and> steps new = counter_values (total_iters s) (batch_size opt) (n_batches ds (e # es))
           \<and> cadences_ok opt new
           \<and> (\<forall>x\<in>set new. at_epoch x \<in> set (e # es))
           \<and> length (filter is_update_lr (map call new)) = length (e # es)
           \<and> (distinct (e # es) \<longrightarrow> (\<forall>e'\<in>set (e # es). lr_first (epoch_calls e' new)))"
    by (rule exI [of _ "a @ c"]) (intro conjI l st cd ep lc lr)
  with tt c2 show ?case by blast
qed

lemma train_Done:
  fixes s :: "'a tstate"
  assumes "snd (train draws ds opt) = Done s"
  shows "total_iters s = int (n_batches ds (epochs opt)) * batch_size opt"
    and "steps (log s) = counter_values 0 (batch_size opt) (n_batches ds (epochs opt))"
    and "cadences_ok opt (log s)"
    and "\<forall>e\<in>set (epochs opt). lr_first (epoch_calls e (log s))"
    and "length (filter is_update_lr (map call (log s))) = length (epochs opt)"
proof -
  let ?s0 = "init_tstate (train_opt opt) :: 'a tstate"
  have eq: "epochs (train_opt opt) = epochs opt" "batch_size (train_opt opt) = batch_size opt"
    by (simp_all add: epochs_def train_opt_def Let_def)
  have sn: "saves_networks (train_opt opt) = (saves_networks opt :: 'a entry \<Rightarrow> bool)"
    by (rule ext) (simp add: saves_networks_def train_opt_def Let_def)
  have fr: "display_freq (train_opt opt) = display_freq opt"
    "print_freq (train_opt opt) = print_freq opt"
    "save_latest_freq (train_opt opt) = save_latest_freq opt"
    by (simp_all add: train_opt_def Let_def)
  have co: "cadences_ok (train_opt opt) l = cadences_ok opt l" for l :: "'a entry list"
    by (simp add: cadences_ok_def sn fr)
  have s0: "cfg ?s0 = train_opt opt" "total_iters ?s0 = 0" "log ?s0 = []"
    by (simp_all add: init_tstate_def)
  from assms have "epoch_loop draws (train_fig_dir (train_opt opt)) ds (epochs opt) ?s0 = Done s"
    by (simp add: train_def Let_def eq s0)
  from epoch_loop_Done [OF this s0(1)]
  show "total_iters s = int (n_batches ds (epochs opt)) * batch_size opt"
    and "steps (log s) = counter_values 0 (batch_size opt) (n_batches ds (epochs opt))"
    and "cadences_ok opt (log s)"
    and "\<forall>e\<in>set (epochs opt). lr_first (epoch_calls e (log s))"
    and "length (filter is_update_lr (map call (log s))) = length (epochs opt)"
    by (auto simp: s0 eq co epochs_def)
qed

subsection \<open>The data-loading time is bound before it is read\<close>

lemma and_then_Raised:
  "and_then r f = Raised e s' \<Longrightarrow> r = Raised e s' \<or> (\<exists>s1. r = Done s1 \<and> f s1 = Raised e s')"
  by (cases r) (simp_all add: and_then_def)

lemma bind_t_data_Raised: "bind_t_data opt s = Raised e s' \<Longrightarrow> e = ZeroDivisionError"
  by (auto simp: bind_t_data_def split: sum.splits dest: py_mod_Inl)

lemma display_check_Raised: "display_check opt ep s = Raised e s' \<Longrightarrow> e = ZeroDivisionError"
  by (auto simp: display_check_def split: sum.splits if_splits dest: py_mod_Inl)

lemma print_check_Raised:
  "print_check opt ep s = Raised e s' \<Longrightarrow> t_data s \<noteq> None \<Longrightarrow> e = ZeroDivisionError"
  by (auto simp: print_check_def Let_def emit_fields split: sum.splits if_splits option.splits dest: py_mod_Inl)

lemma save_latest_check_Raised:
  "save_latest_check draws opt dir ep i s = Raised e s' \<Longrightarrow> e = ZeroDivisionError \<or> e = ValueError"
  by (auto simp: save_latest_check_def Let_def randint_def split: sum.splits if_splits prod.splits dest: py_mod_Inl)

text \<open>The invariant: the name is bound, or no batch has been processed yet.\<close>

lemma batch_step_t_data:
  fixes s :: "'a tstate"
  assumes inv: "t_data s \<noteq> None \<or> total_iters s = 0"
  shows "batch_step draws dir ep b s \<noteq> Raised UnboundLocalError s'"
    and "batch_step draws dir ep b s = Done s'' \<Longrightarrow> t_data s'' \<noteq> None"
proof -
  have bound: "t_data s1 \<noteq> None" if "bind_t_data (cfg s) s = Done s1" for s1
    using bind_t_data_Done(1) [OF that] inv by (auto split: if_splits)
  have adv: "t_data s2 \<noteq> None"
    if "bind_t_data (cfg s) s = Done s1" "display_check (cfg s1) ep (advance (cfg s1) ep (snd b) s1) = Done s2" for s1 s2
    using display_check_Done(1) [OF that(2)] bound [OF that(1)]
    by (auto simp: advance_fields emit_fields split: if_splits)
  show "batch_step draws dir ep b s \<noteq> Raised UnboundLocalError s'"
  proof
    assume r: "batch_step draws dir ep b s = Raised UnboundLocalError s'"
    then consider
        "bind_t_data (cfg s) s = Raised UnboundLocalError s'"
      | s1 where "bind_t_data (cfg s) s = Done s1"
          "display_check (cfg s1) ep (advance (cfg s1) ep (snd b) s1) = Raised UnboundLocalError s'"
      | s1 s2 where "bind_t_data (cfg s) s = Done s1"
          "display_check (cfg s1) ep (advance (cfg s1) ep (snd b) s1) = Done s2"
          "print_check (cfg s2) ep s2 = Raised UnboundLocalError s'"
      | s1 s2 s3 where "bind_t_data (cfg s) s = Done s1"
          "display_check (cfg s1) ep (advance (cfg s1) ep (snd b) s1) = Done s2"
          "print_check (cfg s2) ep s2 = Done s3"
          "save_latest_check draws (cfg s3) dir ep (fst b) s3 = Raised UnboundLocalError s'"
      unfolding batch_step_def by (blast dest: and_then_Raised)
    then show False
    proof cases
      case 1
      then show False by (auto dest: bind_t_data_Raised)
    next
      case 2
      then show False by (auto dest: display_check_Raised)
    next
      case 3
      from print_check_Raised [OF 3(3) adv [OF 3(1,2)]] show False by simp
    next
      case 4
      then show False by (auto dest: save_latest_check_Raised)
    qed
  qed
  show "t_data s'' \<noteq> None" if "batch_step draws dir ep b s = Done s''"
  proof -
    from that obtain s1 s2 s3 where
      1: "bind_t_data (cfg s) s = Done s1" and
      2: "display_check (cfg s1) ep (advance (cfg s1) ep (snd b) s1) = Done s2" and
      3: "print_check (cfg s2) ep s2 = Done s3" and
      4: "save_latest_check draws (cfg s3) dir ep (fst b) s3 = Done s''"
      unfolding batch_step_def by (blast dest: and_then_Done)
    have "t_data s3 \<noteq> None"
      using print_check_Done(1) [OF 3] adv [OF 1 2] by (auto simp: emit_fields split: if_splits)
    then show ?thesis
      using save_latest_check_Done(1) [OF 4] by (auto split: if_splits)
  qed
qed

lemma batch_loop_t_data:
  fixes s :: "'a tstate"
  assumes "t_data s \<noteq> None \<or> total_iters s = 0"
  shows "batch_loop draws dir ep bs s \<noteq> Raised UnboundLocalError s'
     \<and> (\<forall>s''. batch_loop draws dir ep bs s = Done s'' \<longrightarrow> t_data s'' \<noteq> None \<or> total_iters s'' = 0)"
  using assms
proof (induction bs arbitrary: s)
  case Nil
  then show ?case by simp
next
  case (Cons b bs)
  note st = batch_step_t_data [OF Cons.prems]
  have nxt: "t_data s1 \<noteq> None \<or> total_iters s1 = 0" if "batch_step draws dir ep b s = Done s1" for s1
    using st(2) [OF that] by simp
  show ?case
  proof (intro conjI allI impI notI)
    assume "batch_loop draws dir ep (b # bs) s = Raised UnboundLocalError s'"
    then consider "batch_step draws dir ep b s = Raised UnboundLocalError s'"
      | s1 where "batch_step draws dir ep b s = Done s1"
          "batch_loop draws dir ep bs s1 = Raised UnboundLocalError s'"
      by (auto dest: and_then_Raised)
    then show False
    proof cases
      case 1
      with st(1) show False by blast
    next
      case 2
      with Cons.IH [OF nxt [OF 2(1)]] show False by blast
    qed
  next
    fix s'' assume "batch_loop draws dir ep (b # bs) s = Done s''"
    then obtain s1 where 1: "batch_step draws dir ep b s = Done s1"
      and 2: "batch_loop draws dir ep bs s1 = Done s''"
      by (auto dest: and_then_Done)
    with Cons.IH [OF nxt [OF 1]] show "t_data s'' \<noteq> None \<or> total_iters s'' = 0" by blast
  qed
qed

lemma epoch_end_Raised: "epoch_end opt ep s = Raised e s' \<Longrightarrow> e = ZeroDivisionError"
  by (auto simp: epoch_end_def Let_def split: sum.splits dest: py_mod_Inl)

lemma epoch_step_t_data:
  fixes s :: "'a tstate"
  assumes "t_data s \<noteq> None \<or> total_iters s = 0"
  shows "epoch_step draws dir ds ep s \<noteq> Raised UnboundLocalError s'
     \<and> (\<forall>s''. epoch_step draws dir ds ep s = Done s'' \<longrightarrow> t_data s'' \<noteq> None \<or> total_iters s'' = 0)"
proof -
  define s0 where "s0 = emit ep UpdateLearningRate (emit ep VisReset (s\<lparr>epoch_iter := 0\<rparr>))"
  have inv0: "t_data s0 \<noteq> None \<or> total_iters s0 = 0"
    using assms by (simp add: s0_def emit_fields)
  note bl = batch_loop_t_data [OF inv0]
  have es: "epoch_step draws dir ds ep s =
      and_then (batch_loop draws dir ep (enumerate 0 (ds ep)) s0) (\<lambda>s. epoch_end (cfg s) ep s)"
    by (simp add: epoch_step_def s0_def Let_def)
  show ?thesis
  proof (intro conjI allI impI notI)
    assume "epoch_step draws dir ds ep s = Raised UnboundLocalError s'"
    then consider "batch_loop draws dir ep (enumerate 0 (ds ep)) s0 = Raised UnboundLocalError s'"
      | s1 where "epoch_end (cfg s1) ep s1 = Raised UnboundLocalError s'"
      unfolding es by (auto dest: and_then_Raised)
    then show False
    proof cases
      case 1
      with bl show False by blast
    next
      case 2
      then show False by (auto dest: epoch_end_Raised)
    qed
  next
    fix s'' assume "epoch_step draws dir ds ep s = Done s''"
    then obtain s1 where 1: "batch_loop draws dir ep (enumerate 0 (ds ep)) s0 = Done s1"
      and 2: "epoch_end (cfg s1) ep s1 = Done s''"
      unfolding es by (auto dest: and_then_Done)
    from bl 1 have "t_data s1 \<noteq> None \<or> total_iters s1 = 0" by blast
    with epoch_end_Done [OF 2] show "t_data s'' \<noteq> None \<or> total_iters s'' = 0" by simp
  qed
qed

lemma epoch_loop_t_data:
  fixes s :: "'a tstate"
  assumes "t_data s \<noteq> None \<or> total_iters s = 0"
  shows "epoch_loop draws dir ds es s \<noteq> Raised UnboundLocalError s'"
  using assms
proof (induction es arbitrary: s)
  case Nil
  then show ?case by simp
next
  case (Cons ep es)
  note st = epoch_step_t_data [OF Cons.prems]
  show ?case
  proof
    assume "epoch_loop draws dir ds (ep # es) s = Raised UnboundLocalError s'"
    then consider "epoch_step draws dir ds ep s = Raised UnboundLocalError s'"
      | s1 where "epoch_step draws dir ds ep s = Done s1"
          "epoch_loop draws dir ds es s1 = Raised UnboundLocalError s'"
      by (auto dest: and_then_Raised)
    then show False
    proof cases
      case 1
      with st show False by blast
    next
      case 2
      from st 2(1) have "t_data s1 \<noteq> None \<or> total_iters s1 = 0" by blast
      from Cons.IH [OF this] 2(2) show False by blast
    qed
  qed
qed

subsection \<open>A run with non-zero frequencies and a positive batch size completes\<close>


lemma batch_step_completes:
  fixes s :: "'a tstate"
  assumes "freqs_ok opt" and c: "cfg s = opt" and inv: "t_data s \<noteq> None \<or> total_iters s = 0"
  shows "\<exists>s'. batch_step draws dir ep b s = Done s'"
proof -
  from assms(1) have f: "display_freq opt \<noteq> 0" "update_html_freq opt \<noteq> 0" "print_freq opt \<noteq> 0"
    "save_latest_freq opt \<noteq> 0" "0 < batch_size opt"
    by (simp_all add: freqs_ok_def)
  have "\<exists>s1. bind_t_data opt s = Done s1"
    using f by (simp add: bind_t_data_def py_mod_def)
  then obtain s1 where 1: "bind_t_data opt s = Done s1" ..
  have b1: "t_data s1 \<noteq> None" and c1: "cfg s1 = opt"
    using bind_t_data_Done(1) [OF 1] inv c by (auto split: if_splits)
  have "\<exists>s2. display_check opt ep (advance opt ep (snd b) s1) = Done s2"
    using f by (simp add: display_check_def py_mod_def)
  then obtain s2 where 2: "display_check opt ep (advance opt ep (snd b) s1) = Done s2" ..
  have b2: "t_data s2 \<noteq> None" and c2: "cfg s2 = opt"
    using display_check_Done(1) [OF 2] b1 c1 by (auto simp: advance_fields emit_fields split: if_splits)
  have "\<exists>s3. print_check opt ep s2 = Done s3"
    using f b2 by (auto simp: print_check_def py_mod_def Let_def emit_fields)
  then obtain s3 where 3: "print_check opt ep s2 = Done s3" ..
  have c3: "cfg s3 = opt"
    using print_check_Done(1) [OF 3] c2 by (auto simp: emit_fields split: if_splits)
  have "\<exists>s4. save_latest_check draws opt dir ep (fst b) s3 = Done s4"
    using f by (auto simp: save_latest_check_def py_mod_def Let_def randint_def randbelow_def)
  then obtain s4 where 4: "save_latest_check draws opt dir ep (fst b) s3 = Done s4" ..
  show ?thesis
    unfolding batch_step_def using 1 2 3 4 c c1 c2 c3 by (simp add: and_then_def)
qed

lemma batch_loop_completes:
  fixes s :: "'a tstate"
  assumes "freqs_ok opt" and "cfg s = opt" and "t_data s \<noteq> None \<or> total_iters s = 0"
  shows "\<exists>s'. batch_loop draws dir ep bs s = Done s'"
  using assms(2,3)
proof (induction bs arbitrary: s)
  case Nil
  then show ?case by simp
next
  case (Cons b bs)
  from batch_step_completes [OF assms(1) Cons.prems]
  obtain s1 where 1: "batch_step draws dir ep b s = Done s1" by blast
  from batch_step_t_data(2) [OF Cons.prems(2) 1] have "t_data s1 \<noteq> None \<or> total_iters s1 = 0" by simp
  from Cons.IH [OF batch_step_Done(2) [OF 1 Cons.prems(1)] this]
  obtain s' where "batch_loop draws dir ep bs s1 = Done s'" by blast
  with 1 show ?case by (simp add: and_then_def)
qed

lemma epoch_step_completes:
  fixes s :: "'a tstate"
  assumes "freqs_ok opt" and "cfg s = opt" and "t_data s \<noteq> None \<or> total_iters s = 0"
  shows "\<exists>s'. epoch_step draws dir ds ep s = Done s'"
proof -
  define s0 where "s0 = emit ep UpdateLearningRate (emit ep VisReset (s\<lparr>epoch_iter := 0\<rparr>))"
  have c0: "cfg s0 = opt" using assms(2) by (simp add: s0_def emit_fields)
  have "t_data s0 \<noteq> None \<or> total_iters s0 = 0"
    using assms(3) by (simp add: s0_def emit_fields)
  from batch_loop_completes [OF assms(1) c0 this]
  obtain s1 where 1: "batch_loop draws dir ep (enumerate 0 (ds ep)) s0 = Done s1" by blast
  from batch_loop_Done [OF 1 c0] have c1: "cfg s1 = opt" by blast
  have "save_epoch_freq opt \<noteq> 0" using assms(1) by (simp add: freqs_ok_def)
  then have "\<exists>s'. epoch_end opt ep s1 = Done s'"
    by (simp add: epoch_end_def py_mod_def Let_def)
  then obtain s' where "epoch_end opt ep s1 = Done s'" ..
  with 1 c1 show ?thesis
    by (simp add: epoch_step_def Let_def s0_def and_then_def)
qed

lemma epoch_loop_completes:
  fixes s :: "'a tstate"
  assumes "freqs_ok opt" and "cfg s = opt" and "t_data s \<noteq> None \<or> total_iters s = 0"
  shows "\<exists>s'. epoch_loop draws dir ds es s = Done s'"
  using assms(2,3)
proof (induction es arbitrary: s)
  case Nil
  then show ?case by simp
next
  case (Cons ep es)
  from epoch_step_completes [OF assms(1) Cons.prems]
  obtain s1 where 1: "epoch_step draws dir ds ep s = Done s1" by blast
  from epoch_step_t_data [OF Cons.prems(2)] 1 have "t_data s1 \<noteq> None \<or> total_iters s1 = 0" by blast
  moreover from epoch_step_Done [OF 1 Cons.prems(1)] have "cfg s1 = opt" by blast
  ultimately obtain s' where "epoch_loop draws dir ds es s1 = Done s'"
    using Cons.IH by blast
  with 1 show ?case by (simp add: and_then_def)
qed

lemma train_completes:
  assumes "freqs_ok opt"
  shows "\<exists>s :: 'a tstate. snd (train draws ds opt) = Done s"
proof -
  let ?s0 = "init_tstate (train_opt opt) :: 'a tstate"
  have f: "freqs_ok (train_opt opt)" using assms by (simp add: freqs_ok_def train_opt_def Let_def)
  have c: "cfg ?s0 = train_opt opt" by (simp add: init_tstate_def)
  have i: "t_data ?s0 \<noteq> None \<or> total_iters ?s0 = 0" by (simp add: init_tstate_def)
  from epoch_loop_completes [OF f c i] show ?thesis
    unfolding train_def Let_def snd_conv c .
qed

subsection \<open>The namespace is not written by the training loop\<close>

lemma outcome_state_simps:
  "outcome_state (Done s) = s" "outcome_state (Raised e s) = s"
  by (simp_all add: outcome_state_def)

lemma outcome_state_and_then:
  "outcome_state (and_then r f) = (case r of Done s \<Rightarrow> outcome_state (f s) | Raised e s \<Rightarrow> s)"
  by (cases r) (simp_all add: and_then_def outcome_state_def)

lemma bind_t_data_cfg: "cfg (outcome_state (bind_t_data opt s)) = cfg s"
  by (simp add: bind_t_data_def outcome_state_simps split: sum.splits)

lemma display_check_cfg: "cfg (outcome_state (display_check opt e s)) = cfg s"
  by (simp add: display_check_def outcome_state_simps emit_fields split: sum.splits)

lemma print_check_cfg: "cfg (outcome_state (print_check opt e s)) = cfg s"
  by (simp add: print_check_def Let_def outcome_state_simps emit_fields
      split: sum.splits option.splits)

lemma save_latest_check_cfg: "cfg (outcome_state (save_latest_check draws opt dir e i s)) = cfg s"
  by (simp add: save_latest_check_def Let_def randint_def randbelow_def outcome_state_simps
      emit_fields split: sum.splits prod.splits)

lemma epoch_end_cfg: "cfg (outcome_state (epoch_end opt e s)) = cfg s"
  by (simp add: epoch_end_def Let_def outcome_state_simps emit_fields split: sum.splits)

lemma and_then_cfg:
  assumes "cfg (outcome_state r) = c"
    and "\<And>s. r = Done s \<Longrightarrow> cfg (outcome_state (f s)) = cfg s"
  shows "cfg (outcome_state (and_then r f)) = c"
  using assms by (cases r) (simp_all add: and_then_def outcome_state_simps)

lemma batch_step_cfg: "cfg (outcome_state (batch_step draws dir e b s)) = cfg s"
  unfolding batch_step_def
proof (rule and_then_cfg [OF bind_t_data_cfg])
  fix s1
  show "cfg (outcome_state (and_then (display_check (cfg s1) e (advance (cfg s1) e (snd b) s1))
          (\<lambda>s. and_then (print_check (cfg s) e s)
             (\<lambda>s. save_latest_check draws (cfg s) dir e (fst b) s)))) = cfg s1"
  proof (rule and_then_cfg)
    show "cfg (outcome_state (display_check (cfg s1) e (advance (cfg s1) e (snd b) s1))) = cfg s1"
      by (simp add: display_check_cfg advance_fields)
  next
    fix s2
    show "cfg (outcome_state (and_then (print_check (cfg s2) e s2)
             (\<lambda>s. save_latest_check draws (cfg s) dir e (fst b) s))) = cfg s2"
      by (rule and_then_cfg [OF print_check_cfg]) (rule save_latest_check_cfg)
  qed
qed

lemma batch_loop_cfg: "cfg (outcome_state (batch_loop draws dir e bs s)) = cfg s"
proof (induction bs arbitrary: s)
  case Nil
  show ?case by (simp add: outcome_state_simps)
next
  case (Cons b bs)
  show ?case
    unfolding batch_loop.simps by (rule and_then_cfg [OF batch_step_cfg]) (rule Cons.IH)
qed

lemma epoch_step_cfg: "cfg (outcome_state (epoch_step draws dir ds e s)) = cfg s"
proof -
  let ?s0 = "emit e UpdateLearningRate (emit e VisReset (s\<lparr>epoch_iter := 0\<rparr>))"
  have "cfg (outcome_state (and_then (batch_loop draws dir e (enumerate 0 (ds e)) ?s0)
          (\<lambda>s. epoch_end (cfg s) e s))) = cfg ?s0"
    by (rule and_then_cfg [OF batch_loop_cfg]) (rule epoch_end_cfg)
  then show ?thesis by (simp add: epoch_step_def Let_def emit_fields)
qed

lemma epoch_loop_cfg: "cfg (outcome_state (epoch_loop draws dir ds es s)) = cfg s"
proof (induction es arbitrary: s)
  case Nil
  show ?case by (simp add: outcome_state_simps)
next
  case (Cons e es)
  show ?case
    unfolding epoch_loop.simps by (rule and_then_cfg [OF epoch_step_cfg]) (rule Cons.IH)
qed

lemma train_cfg: "fst (train draws ds opt) = train_opt opt"
  by (simp add: train_def Let_def epoch_loop_cfg init_tstate_def)

section \<open>The gpu id list after parsing\<close>

lemma gpu_ids_loop_filter:
  "gpu_ids_loop lim ss acc = Inr ids \<Longrightarrow>
     \<exists>ns. map (py_int lim) ss = map Inr ns \<and> ids = acc @ filter (\<lambda>n. 0 \<le> n) ns"
proof (induction ss arbitrary: acc)
  case Nil
  then show ?case by simp
next
  case (Cons s ss)
  from Cons.prems obtain i where i: "py_int lim s = Inr i"
    and rest: "gpu_ids_loop lim ss (if i \<ge> 0 then acc @ [i] else acc) = Inr ids"
    by (auto split: sum.splits)
  from Cons.IH [OF rest] obtain ns where ns: "map (py_int lim) ss = map Inr ns"
    and ids: "ids = (if i \<ge> 0 then acc @ [i] else acc) @ filter (\<lambda>n. 0 \<le> n) ns"
    by blast
  have "map (py_int lim) (s # ss) = map Inr (i # ns)" using i ns by simp
  moreover have "ids = acc @ filter (\<lambda>n. 0 \<le> n) (i # ns)" using ids by simp
  ultimately show ?case by blast
qed

lemma py_int_minus_one: "py_int lim ''-1'' = Inr (- 1)"
  by (auto simp: py_int_def strip_def is_space_def py_nat_def is_digit_def digit_val_def)

lemma set_gpu_ids_minus_one: "set_gpu_ids lim ''-1'' = Inr ([], None)"
  by (simp add: set_gpu_ids_def py_int_minus_one)

lemma set_gpu_ids_filter:
  assumes "set_gpu_ids lim s = Inr (ids, dev)"
  shows "\<exists>ns. map (py_int lim) (split CHR '','' s) = map Inr ns \<and> ids = filter (\<lambda>n. 0 \<le> n) ns"
    and "dev = (case ids of [] \<Rightarrow> None | i # _ \<Rightarrow> Some i)"
  using assms gpu_ids_loop_filter [of lim "split CHR '','' s" "[]" ids]
  by (auto simp: set_gpu_ids_def split: sum.splits list.splits)

lemma simple_parse_gpu:
  assumes "simple_parse lim fmt g = Inr opt"
  shows "set_gpu_ids lim (g_gpu_ids g) = Inr (p_gpu_ids opt, cuda_device opt)"
  using assms by (auto simp: simple_parse_def split: sum.splits prod.splits)

lemma base_parse_gpu:
  assumes "base_parse lim fmt g = Inr opt"
  shows "set_gpu_ids lim (g_gpu_ids g) = Inr (p_gpu_ids opt, cuda_device opt)"
  using assms by (auto simp: base_parse_def split: sum.splits prod.splits)

text \<open>
  C10.  When \<^verbatim>\<open>SimpleOptions.parse\<close> (and likewise \<^verbatim>\<open>BaseOptions.parse\<close>) returns,
  every comma-separated piece of the input string has been read by \<^verbatim>\<open>int\<close>,
  and \<^verbatim>\<open>gpu_ids\<close> is the list of those integers that are non-negative, in their
  original order.  The CUDA device is set to the first of them, and to none
  when the list is empty; for the input \<^verbatim>\<open>-1\<close> the list is empty and no device is
  selected.
\<close>

theorem gpu_ids_after_parse:
  "(simple_parse lim fmt g = Inr opt \<longrightarrow>
      (\<exists>ns. map (py_int lim) (split CHR '','' (g_gpu_ids g)) = map Inr ns
           \<and> p_gpu_ids opt = filter (\<lambda>n. 0 \<le> n) ns)
      \<and> cuda_device opt = (case p_gpu_ids opt of [] \<Rightarrow> None | i # _ \<Rightarrow> Some i)
      \<and> (g_gpu_ids g = ''-1'' \<longrightarrow> p_gpu_ids opt = [] \<and> cuda_device opt = None))
   \<and> (base_parse lim fmt g = Inr bopt \<longrightarrow>
      (\<exists>ns. map (py_int lim) (split CHR '','' (g_gpu_ids g)) = map Inr ns
           \<and> p_gpu_ids bopt = filter (\<lambda>n. 0 \<le> n) ns)
      \<and> cuda_device bopt = (case p_gpu_ids bopt of [] \<Rightarrow> None | i # _ \<Rightarrow> Some i)
      \<and> (g_gpu_ids g = ''-1'' \<longrightarrow> p_gpu_ids bopt = [] \<and> cuda_device bopt = None))"
proof (intro conjI impI)
  assume p: "simple_parse lim fmt g = Inr opt"
  note s = simple_parse_gpu [OF p]
  show "\<exists>ns. map (py_int lim) (split CHR '','' (g_gpu_ids g)) = map Inr ns
           \<and> p_gpu_ids opt = filter (\<lambda>n. 0 \<le> n) ns"
    by (rule set_gpu_ids_filter(1) [OF s])
  show "cuda_device opt = (case p_gpu_ids opt of [] \<Rightarrow> None | i # _ \<Rightarrow> Some i)"
    by (rule set_gpu_ids_filter(2) [OF s])
  assume "g_gpu_ids g = ''-1''"
  with s show "p_gpu_ids opt = []" "cuda_device opt = None"
    by (simp_all add: set_gpu_ids_minus_one)
next
  assume p: "base_parse lim fmt g = Inr bopt"
  note s = base_parse_gpu [OF p]
  show "\<exists>ns. map (py_int lim) (split CHR '','' (g_gpu_ids g)) = map Inr ns
           \<and> p_gpu_ids bopt = filter (\<lambda>n. 0 \<le> n) ns"
    by (rule set_gpu_ids_filter(1) [OF s])
  show "cuda_device bopt = (case p_gpu_ids bopt of [] \<Rightarrow> None | i # _ \<Rightarrow> Some i)"
    by (rule set_gpu_ids_filter(2) [OF s])
  assume "g_gpu_ids g = ''-1''"
  with s show "p_gpu_ids bopt = []" "cuda_device bopt = None"
    by (simp_all add: set_gpu_ids_minus_one)
qed

theorem gpu_ids_after_parse_witness:
  "simple_parse 4300 Inr \<lparr>g_suffix = [], g_name = None, g_gpu_ids = ''-1'', g_planes = ''axial''\<rparr>
     = Inr \<lparr>p_name = None, p_gpu_ids = [], cuda_device = None, p_planes = [''axial'']\<rparr>
   \<and> base_parse 4300 Inr \<lparr>g_suffix = [], g_name = None, g_gpu_ids = ''-1'', g_planes = ''axial''\<rparr>
     = Inr \<lparr>p_name = None, p_gpu_ids = [], cuda_device = None\<rparr>
   \<and> simple_parse 4300 Inr \<lparr>g_suffix = [], g_name = None, g_gpu_ids = ''2,-1, 0'', g_planes = ''axial''\<rparr>
     = Inr \<lparr>p_name = None, p_gpu_ids = [2, 0], cuda_device = Some 2, p_planes = [''axial'']\<rparr>
   \<and> (\<exists>ns. map (py_int 4300) (split CHR '','' ''2,-1, 0'') = map Inr ns \<and> [2, 0] = filter (\<lambda>n. 0 \<le> n) ns)
   \<and> ([] :: int list) = [] \<and> (None :: int option) = None"
proof -
  let ?g = "\<lparr>g_suffix = [], g_name = None, g_gpu_ids = ''-1'', g_planes = ''axial''\<rparr>"
  let ?h = "\<lparr>g_suffix = [], g_name = None, g_gpu_ids = ''2,-1, 0'', g_planes = ''axial''\<rparr>"
  let ?o = "\<lparr>p_name = None, p_gpu_ids = [], cuda_device = None, p_planes = [''axial'']\<rparr>"
  let ?b = "\<lparr>p_name = None, p_gpu_ids = [], cuda_device = None\<rparr>"
  let ?p = "\<lparr>p_name = None, p_gpu_ids = [2, 0], cuda_device = Some 2, p_planes = [''axial'']\<rparr>"
  have 1: "simple_parse 4300 Inr ?g = Inr ?o"
    by (simp add: simple_parse_def process_suffix_def set_gpu_ids_minus_one)
  have 2: "base_parse 4300 Inr ?g = Inr ?b"
    by (simp add: base_parse_def process_suffix_def set_gpu_ids_minus_one)
  have 3: "simple_parse 4300 Inr ?h = Inr ?p"
    by (simp add: simple_parse_def process_suffix_def set_gpu_ids_def py_int_def strip_def
        is_space_def py_nat_def is_digit_def digit_val_def)
  from gpu_ids_after_parse [of 4300 Inr ?g ?o ?b] 1 2
  have "p_gpu_ids ?o = [] \<and> cuda_device ?o = None" by simp
  moreover from gpu_ids_after_parse [of 4300 Inr ?h ?p ?b] 3
  have "\<exists>ns. map (py_int 4300) (split CHR '','' ''2,-1, 0'') = map Inr ns \<and> [2, 0] = filter (\<lambda>n. 0 \<le> n) ns"
    by simp
  ultimately show ?thesis using 1 2 3 by simp
qed

section \<open>The claims about the training loop\<close>

lemma count_list_distinct:
  "distinct xs \<Longrightarrow> count_list (filter p xs) t = (if t \<in> set xs \<and> p t then 1 else 0)"
  by (induction xs) auto

lemma sorted_wrt_less_distinct: "sorted_wrt (<) (xs :: int list) \<Longrightarrow> distinct xs"
  by (induction xs) auto

lemma sorted_wrt_filter_less: "sorted_wrt (<) (xs :: int list) \<Longrightarrow> sorted_wrt (<) (filter p xs)"
  by (induction xs) auto

lemma is_done_eq: "is_done r \<Longrightarrow> r = Done (outcome_state r)"
  by (cases r) (simp_all add: is_done_def outcome_state_def)

lemma lr_first_once:
  assumes "lr_first cs"
  shows "length (filter is_update_lr cs) = 1"
    and "\<not> list_ex is_batch_call (takeWhile (\<lambda>c. \<not> is_update_lr c) cs)"
proof -
  from assms obtain rest where cs: "cs = VisReset # UpdateLearningRate # rest"
    and r: "list_all (\<lambda>c. \<not> is_update_lr c) rest"
    by (auto simp: lr_first_iff)
  have "filter is_update_lr rest = []" using r by (simp add: list_all_iff filter_empty_conv)
  then show "length (filter is_update_lr cs) = 1" by (simp add: cs is_defs)
  show "\<not> list_ex is_batch_call (takeWhile (\<lambda>c. \<not> is_update_lr c) cs)"
    by (simp add: cs is_defs is_batch_call_def)
qed

text \<open>
  C2, as stated, fails.  Nothing in the option parsers or in \<^verbatim>\<open>train\<close> keeps the
  batch size positive.  With a batch size of \<open>- 1\<close> the run completes, the counter
  takes the values \<open>- 1, \<dots>, - 6\<close>, and the print cadence fires at \<open>- 2, - 4, - 6\<close>:
  at the multiples, but in decreasing order.
\<close>

theorem decreasing_counter_counterexample:
  "is_done (snd (train (\<lambda>_. 0) three_batches backwards_opt))
   \<and> steps (log (outcome_state (snd (train (\<lambda>_. 0) three_batches backwards_opt))))
        = [- 1, - 2, - 3, - 4, - 5, - 6]
   \<and> fired is_print (log (outcome_state (snd (train (\<lambda>_. 0) three_batches backwards_opt))))
        = [- 2, - 4, - 6]
   \<and> \<not> sorted_wrt (<)
        (fired is_print (log (outcome_state (snd (train (\<lambda>_. 0) three_batches backwards_opt)))))"
  by code_simp

text \<open>
  C2, amended.  In a training run that completes, with a positive batch size,
  let \<open>f\<close> be one of \<^verbatim>\<open>display_freq\<close>, \<^verbatim>\<open>print_freq\<close>, \<^verbatim>\<open>save_latest_freq\<close> and \<open>F\<close>
  select a call of its branch: \<^verbatim>\<open>compute_visuals\<close>; \<^verbatim>\<open>print_current_losses\<close>, alone
  or right after \<^verbatim>\<open>get_current_losses\<close>; the message of line 89, \<^verbatim>\<open>save_networks\<close>
  with the suffix of line 90 right after that message, \<^verbatim>\<open>get_current_visuals\<close>,
  \<^verbatim>\<open>save_atme_images\<close>.  The values the global counter takes after the batch
  steps are \<open>b, 2b, \<dots>\<close> and strictly increase; the call is made at exactly those
  values \<open>t\<close> with \<open>t mod f = 0\<close>, once for each of them, in increasing order.
\<close>

theorem cadence_fires_on_multiples:
  fixes s :: "'a tstate"
  assumes "snd (train draws ds opt) = Done s"
    and "0 < batch_size opt"
    and "(f, F) \<in> {(display_freq opt, fired is_display),
                    (print_freq opt, fired_pair is_get_losses prints_losses),
                    (print_freq opt, fired is_print),
                    (save_latest_freq opt, fired is_saving_latest),
                    (save_latest_freq opt, fired_pair is_saving_latest (saves_networks opt)),
                    (save_latest_freq opt, fired is_get_visuals),
                    (save_latest_freq opt, fired is_save_latest)}"
  shows "steps (log s) = counter_values 0 (batch_size opt) (n_batches ds (epochs opt))
     \<and> sorted_wrt (<) (steps (log s))
     \<and> F (log s) = filter (\<lambda>t. t mod f = 0) (steps (log s))
     \<and> (\<forall>t. count_list (F (log s)) t = (if t \<in> set (steps (log s)) \<and> t mod f = 0 then 1 else 0))
     \<and> sorted_wrt (<) (F (log s))"
proof -
  note st = train_Done(2) [OF assms(1)]
  have so: "sorted_wrt (<) (steps (log s))"
    unfolding st using assms(2) by (rule counter_values_sorted)
  have fi: "F (log s) = filter (\<lambda>t. t mod f = 0) (steps (log s))"
    using train_Done(3) [OF assms(1)] assms(3) by (auto simp: cadences_ok_def)
  have ct: "\<forall>t. count_list (F (log s)) t = (if t \<in> set (steps (log s)) \<and> t mod f = 0 then 1 else 0)"
    unfolding fi using sorted_wrt_less_distinct [OF so] by (simp add: count_list_distinct)
  have sf: "sorted_wrt (<) (F (log s))"
    unfolding fi using so by (rule sorted_wrt_filter_less)
  from st so fi ct sf show ?thesis by blast
qed

theorem cadence_fires_on_multiples_witness:
  "is_done (snd (train (\<lambda>_. 0) three_batches small_opt))
   \<and> 0 < batch_size small_opt
   \<and> steps (log (outcome_state (snd (train (\<lambda>_. 0) three_batches small_opt)))) = [1, 2, 3, 4, 5, 6]
   \<and> fired is_display (log (outcome_state (snd (train (\<lambda>_. 0) three_batches small_opt)))) = [3, 6]
   \<and> fired is_print (log (outcome_state (snd (train (\<lambda>_. 0) three_batches small_opt)))) = [2, 4, 6]
   \<and> fired_pair is_get_losses prints_losses
        (log (outcome_state (snd (train (\<lambda>_. 0) three_batches small_opt)))) = [2, 4, 6]
   \<and> fired_pair is_saving_latest (saves_networks small_opt)
        (log (outcome_state (snd (train (\<lambda>_. 0) three_batches small_opt)))) = [4]
   \<and> fired is_save_latest (log (outcome_state (snd (train (\<lambda>_. 0) three_batches small_opt)))) = [4]"
proof -
  let ?r = "snd (train (\<lambda>_. 0) three_batches small_opt)"
  have d: "is_done ?r" by code_simp
  have h1: "?r = Done (outcome_state ?r)" using d by (rule is_done_eq)
  have h2: "0 < batch_size small_opt" by (simp add: small_opt_def)
  have n: "counter_values 0 (batch_size small_opt) (n_batches three_batches (epochs small_opt))
      = [1, 2, 3, 4, 5, 6]"
    by code_simp
  have f: "display_freq small_opt = 3" "print_freq small_opt = 2" "save_latest_freq small_opt = 4"
    by (simp_all add: small_opt_def)
  from cadence_fires_on_multiples [OF h1 h2, of "display_freq small_opt" "fired is_display"]
       cadence_fires_on_multiples [OF h1 h2, of "print_freq small_opt" "fired is_print"]
       cadence_fires_on_multiples [OF h1 h2, of "print_freq small_opt"
         "fired_pair is_get_losses prints_losses"]
       cadence_fires_on_multiples [OF h1 h2, of "save_latest_freq small_opt"
         "fired_pair is_saving_latest (saves_networks small_opt)"]
       cadence_fires_on_multiples [OF h1 h2, of "save_latest_freq small_opt" "fired is_save_latest"]
  show ?thesis using d h2 unfolding n f by simp
qed

text \<open>
  C3.  In a training run that completes, for every epoch \<open>e\<close> from \<^verbatim>\<open>epoch_count\<close>
  to \<^verbatim>\<open>n_epochs + n_epochs_decay\<close>, exactly one learning-rate update is made
  during epoch \<open>e\<close>, and no \<^verbatim>\<open>set_input\<close> or \<^verbatim>\<open>optimize_parameters\<close> call of that
  epoch precedes it.
\<close>

theorem lr_update_once_per_epoch:
  fixes s :: "'a tstate"
  assumes "snd (train draws ds opt) = Done s"
    and "epoch_count opt \<le> e" and "e \<le> n_epochs opt + n_epochs_decay opt"
  shows "length (filter is_update_lr (epoch_calls e (log s))) = 1
     \<and> \<not> list_ex is_batch_call (takeWhile (\<lambda>c. \<not> is_update_lr c) (epoch_calls e (log s)))"
proof -
  have "e \<in> set (epochs opt)" using assms(2,3) by (simp add: epochs_def)
  with train_Done(4) [OF assms(1)] have "lr_first (epoch_calls e (log s))" by blast
  from lr_first_once [OF this] show ?thesis by blast
qed


theorem lr_update_once_per_epoch_witness:
  "is_done (snd (train (\<lambda>_. 0) three_batches small_opt))
   \<and> epoch_count small_opt \<le> 2 \<and> 2 \<le> n_epochs small_opt + n_epochs_decay small_opt
   \<and> length (filter is_update_lr
        (epoch_calls 2 (log (outcome_state (snd (train (\<lambda>_. 0) three_batches small_opt)))))) = 1
   \<and> \<not> list_ex is_batch_call (takeWhile (\<lambda>c. \<not> is_update_lr c)
        (epoch_calls 2 (log (outcome_state (snd (train (\<lambda>_. 0) three_batches small_opt))))))"
proof -
  let ?r = "snd (train (\<lambda>_. 0) three_batches small_opt)"
  have d: "is_done ?r" by code_simp
  have h1: "?r = Done (outcome_state ?r)" using d by (rule is_done_eq)
  have h2: "epoch_count small_opt \<le> 2" by (simp add: small_opt_def default_opt_def)
  have h3: "2 \<le> n_epochs small_opt + n_epochs_decay small_opt" by (simp add: small_opt_def)
  from lr_update_once_per_epoch [OF h1 h2 h3] d h2 h3 show ?thesis by simp
qed

text \<open>
  C4.  Scenario A: with \<^verbatim>\<open>epoch_count = 1\<close>, \<^verbatim>\<open>n_epochs = 2\<close>, \<^verbatim>\<open>n_epochs_decay = 0\<close>,
  \<^verbatim>\<open>batch_size = 1\<close>, \<^verbatim>\<open>save_latest_freq = 1000000\<close>, three batches per epoch and
  the remaining frequencies non-zero, the run completes with exactly two
  learning-rate updates and six optimisation steps; the counter takes the
  values 1 to 6, one more at each step, ends at 6, and the latest-model save
  never fires.
\<close>

theorem scenario_A:
  assumes "epoch_count opt = 1" and "n_epochs opt = 2" and "n_epochs_decay opt = 0"
    and "batch_size opt = 1" and "save_latest_freq opt = 1000000"
    and "\<forall>e. length (ds e) = 3"
    and "display_freq opt \<noteq> 0" and "update_html_freq opt \<noteq> 0" and "print_freq opt \<noteq> 0"
    and "save_epoch_freq opt \<noteq> 0"
  shows "\<exists>s. snd (train draws ds opt) = Done s
     \<and> length (filter is_update_lr (map call (log s))) = 2
     \<and> length (filter is_optimize (map call (log s))) = 6
     \<and> total_iters s = 6
     \<and> steps (log s) = [1, 2, 3, 4, 5, 6]
     \<and> fired is_save_latest (log s) = []"
proof -
  have "freqs_ok opt" using assms by (simp add: freqs_ok_def)
  from train_completes [OF this] obtain s :: "'a tstate"
    where s: "snd (train draws ds opt) = Done s" by blast
  have ep: "epochs opt = [1, 2]"
    using assms(1-3) by (simp add: epochs_def upto_rec1)
  have nb: "n_batches ds (epochs opt) = 6"
    using assms(6) by (simp add: ep n_batches_def)
  have cv: "counter_values 0 1 6 = [1, 2, 3, 4, 5, 6]" by code_simp
  have st: "steps (log s) = [1, 2, 3, 4, 5, 6]"
    using train_Done(2) [OF s] by (simp add: nb assms(4) cv)
  have "length (filter is_optimize (map call (log s))) = length (steps (log s))"
    by (simp add: steps_def fired_def filter_map comp_def)
  then have op: "length (filter is_optimize (map call (log s))) = 6" by (simp add: st)
  have lr: "length (filter is_update_lr (map call (log s))) = 2"
    using train_Done(5) [OF s] by (simp add: ep)
  have ti: "total_iters s = 6" using train_Done(1) [OF s] by (simp add: nb assms(4))
  have sv: "fired is_save_latest (log s) = []"
    using train_Done(3) [OF s] by (simp add: cadences_ok_def st assms(5))
  from s lr op ti st sv show ?thesis by blast
qed

theorem scenario_A_witness:
  "epoch_count scenario_A_opt = 1 \<and> n_epochs scenario_A_opt = 2 \<and> n_epochs_decay scenario_A_opt = 0
   \<and> batch_size scenario_A_opt = 1 \<and> save_latest_freq scenario_A_opt = 1000000
   \<and> (\<forall>e. length (three_batches e) = 3)
   \<and> display_freq scenario_A_opt \<noteq> 0 \<and> update_html_freq scenario_A_opt \<noteq> 0
   \<and> print_freq scenario_A_opt \<noteq> 0 \<and> save_epoch_freq scenario_A_opt \<noteq> 0
   \<and> (\<exists>s. snd (train (\<lambda>_. 0) three_batches scenario_A_opt) = Done s
        \<and> length (filter is_update_lr (map call (log s))) = 2
        \<and> length (filter is_optimize (map call (log s))) = 6
        \<and> total_iters s = 6
        \<and> steps (log s) = [1, 2, 3, 4, 5, 6]
        \<and> fired is_save_latest (log s) = [])"
proof -
  have h: "epoch_count scenario_A_opt = 1" "n_epochs scenario_A_opt = 2"
    "n_epochs_decay scenario_A_opt = 0" "batch_size scenario_A_opt = 1"
    "save_latest_freq scenario_A_opt = 1000000" "\<forall>e. length (three_batches e) = 3"
    "display_freq scenario_A_opt \<noteq> 0" "update_html_freq scenario_A_opt \<noteq> 0"
    "print_freq scenario_A_opt \<noteq> 0" "save_epoch_freq scenario_A_opt \<noteq> 0"
    by (simp_all add: scenario_A_opt_def default_opt_def three_batches_def)
  from scenario_A [OF h, of "\<lambda>_. 0"] h show ?thesis by blast
qed

text \<open>
  C9.  No training run ends in an \<^verbatim>\<open>UnboundLocalError\<close>: whenever the print
  branch reads \<^verbatim>\<open>t_data\<close>, the name is bound.  The reason is the guard before the
  increment: at counter 0 it either raises \<^verbatim>\<open>ZeroDivisionError\<close> (a zero
  \<^verbatim>\<open>print_freq\<close>) or binds \<^verbatim>\<open>t_data\<close>.
\<close>

theorem t_data_bound_before_read:
  "snd (train draws ds opt) \<noteq> Raised UnboundLocalError s'
   \<and> (total_iters s = 0 \<and> bind_t_data opt s = Done s1 \<longrightarrow> t_data s1 = Some ())
   \<and> (total_iters s = 0 \<longrightarrow> bind_t_data opt s = Raised ZeroDivisionError s \<or> bind_t_data opt s = Done (s\<lparr>t_data := Some ()\<rparr>))"
proof (intro conjI impI)
  have "t_data (init_tstate (train_opt opt) :: 'a tstate) \<noteq> None
      \<or> total_iters (init_tstate (train_opt opt) :: 'a tstate) = 0"
    by (simp add: init_tstate_def)
  from epoch_loop_t_data [OF this]
  show "snd (train draws ds opt) \<noteq> Raised UnboundLocalError s'"
    by (simp add: train_def Let_def)
next
  assume "total_iters s = 0 \<and> bind_t_data opt s = Done s1"
  then show "t_data s1 = Some ()"
    by (auto simp: bind_t_data_def py_mod_def split: if_splits)
next
  assume "total_iters s = 0"
  then show "bind_t_data opt s = Raised ZeroDivisionError s \<or> bind_t_data opt s = Done (s\<lparr>t_data := Some ()\<rparr>)"
    by (auto simp: bind_t_data_def py_mod_def split: if_splits)
qed


theorem t_data_bound_before_read_witness:
  "snd (train (\<lambda>_. 0) three_batches small_opt)
      \<noteq> Raised UnboundLocalError (outcome_state (snd (train (\<lambda>_. 0) three_batches small_opt)))
   \<and> total_iters (init_tstate small_opt :: nat tstate) = 0
   \<and> bind_t_data small_opt (init_tstate small_opt :: nat tstate) = Done (init_tstate small_opt\<lparr>t_data := Some ()\<rparr>)
   \<and> t_data (init_tstate small_opt\<lparr>t_data := Some ()\<rparr> :: nat tstate) = Some ()"
proof -
  have 1: "total_iters (init_tstate small_opt :: nat tstate) = 0" by (simp add: init_tstate_def)
  have 2: "bind_t_data small_opt (init_tstate small_opt :: nat tstate) = Done (init_tstate small_opt\<lparr>t_data := Some ()\<rparr>)"
    by (simp add: bind_t_data_def py_mod_def small_opt_def init_tstate_def)
  from t_data_bound_before_read [of "\<lambda>_. 0" three_batches small_opt
      "outcome_state (snd (train (\<lambda>_. 0) three_batches small_opt))"
      "init_tstate small_opt :: nat tstate" "init_tstate small_opt\<lparr>t_data := Some ()\<rparr>"] 1 2
  show ?thesis by simp
qed

text \<open>
  C5.  When the latest-model save fires, the slice number is the batch index
  for a batch size of 1.  For another batch size it is \<^verbatim>\<open>random.randint(0,
  batch_size)\<close>, whose upper bound is inclusive: with a batch size of 2 and
  draws that reduce to 2, every saved sample carries the slice number 2, the
  batch size itself.
\<close>

theorem slice_index_reaches_batch_size:
  "batch_size (small_opt\<lparr>batch_size := 2\<rparr>) = 2
   \<and> is_done (snd (train (\<lambda>_. 2) three_batches (small_opt\<lparr>batch_size := 2\<rparr>)))
   \<and> slice_nums (log (outcome_state
        (snd (train (\<lambda>_. 2) three_batches (small_opt\<lparr>batch_size := 2\<rparr>))))) = [2, 2, 2]
   \<and> slice_nums (log (outcome_state (snd (train (\<lambda>_. 2) three_batches small_opt)))) = [0]"
  by code_simp

section \<open>Lemmas about the evaluation loop\<close>

subsection \<open>Broadcasting\<close>
lemma stretch_length: "fits n xs \<Longrightarrow> length (stretch n xs) = n"
  by (auto simp: fits_def stretch_def)

lemma stretch_same: "length xs = n \<Longrightarrow> stretch n xs = xs"
  by (simp add: stretch_def)

lemma broadcast2_Inr:
  assumes "broadcast2 D x = Inr p"
  shows "list_all (fits D) x" and "fits D x" and "p = stretch D (map (stretch D) x)"
proof -
  have c: "uniform x \<and> list_all (fits D) x \<and> fits D x"
  proof (rule ccontr)
    assume "\<not> (uniform x \<and> list_all (fits D) x \<and> fits D x)"
    then have "broadcast2 D x = Inl RuntimeError" unfolding broadcast2_def by (rule if_not_P)
    with assms show False by simp
  qed
  then show "list_all (fits D) x" and "fits D x" by blast+
  from c have "broadcast2 D x = Inr (stretch D (map (stretch D) x))"
    unfolding broadcast2_def by (rule if_P)
  with assms show "p = stretch D (map (stretch D) x)" by simp
qed


lemma broadcast2_shape:
  assumes "broadcast2 D x = Inr p"
  shows "is_mat D D p"
proof -
  note b = broadcast2_Inr [OF assms]
  let ?m = "map (stretch D) x"
  have rows: "length r = D" if "r \<in> set ?m" for r
  proof -
    from that obtain y where y: "y \<in> set x" and r: "r = stretch D y" by auto
    from b(1) y have "fits D y" by (simp add: list_all_iff)
    then show ?thesis unfolding r by (rule stretch_length)
  qed
  have fm: "fits D ?m" using b(2) by (simp add: fits_def)
  have len: "length p = D" unfolding b(3) using fm by (rule stretch_length)
  have all: "length r = D" if "r \<in> set p" for r
  proof (cases "length ?m = D")
    case True
    then have "p = ?m" unfolding b(3) by (rule stretch_same)
    with that rows show ?thesis by blast
  next
    case False
    then have p: "p = replicate D (hd ?m)" unfolding b(3) stretch_def by (rule if_not_P)
    from False fm have "length ?m = 1" unfolding fits_def by blast
    then have "?m \<noteq> []" by auto
    then have "hd ?m \<in> set ?m" by (rule hd_in_set)
    then have "length (hd ?m) = D" by (rule rows)
    moreover from that have "r = hd ?m" unfolding p by simp
    ultimately show ?thesis by simp
  qed
  show ?thesis unfolding is_mat_def list_all_iff using len all by blast
qed

lemma broadcast2_same:
  assumes "is_mat D D x"
  shows "broadcast2 D x = Inr x"
proof -
  from assms have l: "length x = D" and r: "\<forall>r\<in>set x. length r = D"
    unfolding is_mat_def list_all_iff by blast+
  have u: "uniform x"
  proof (cases x)
    case Nil
    then show ?thesis by (simp add: uniform_def)
  next
    case (Cons a as)
    with r show ?thesis by (simp add: uniform_def list_all_iff)
  qed
  have f: "list_all (fits D) x" using r by (simp add: list_all_iff fits_def)
  have g: "fits D x" using l by (simp add: fits_def)
  have "map (stretch D) x = map (\<lambda>r. r) x"
    by (rule map_cong [OF refl]) (use r in \<open>simp add: stretch_same\<close>)
  then have m: "map (stretch D) x = x" by simp
  have "broadcast2 D x = Inr (stretch D (map (stretch D) x))"
    unfolding broadcast2_def using u f g by (intro if_P conjI)
  also have "\<dots> = Inr x" unfolding m using l by (simp add: stretch_same)
  finally show ?thesis .
qed

subsection \<open>The slice loop\<close>

lemma slice_step_Done:
  assumes "slice_step cb D dir i (k, d) s = Done s'"
  shows "model s' = run_test cb (set_input cb d (model s))"
    and "k < length (gen_vol s)"
    and "\<exists>x p. first_plane (fake_B cb (model s')) = Inr x \<and> broadcast2 D x = Inr p
           \<and> gen_vol s' = (gen_vol s)[k := p]"
proof -
  define m1 where "m1 = run_test cb (set_input cb d (model s))"
  define s1 where "s1 = s\<lparr>model := m1, scalls := scalls s @ [SetInputSlice i k, ModelTest i k]\<rparr>"
  have st: "slice_step cb D dir i (k, d) s =
     (case first_plane (fake_B cb m1) of
           Inl e \<Rightarrow> Raised e s1
         | Inr x \<Rightarrow>
            (case set_plane D (gen_vol s1) k x of
               Inl e \<Rightarrow> Raised e s1
             | Inr v \<Rightarrow>
                 (if k = plot_slice
                     then Done (s1\<lparr>gen_vol := v, scalls := scalls s1 @ [GetVisuals i k, SaveSliceImages dir k i]\<rparr>)
                     else Done (s1\<lparr>gen_vol := v\<rparr>))))"
    unfolding slice_step_def Let_def m1_def s1_def fst_conv snd_conv
    by (simp split: sum.splits)
  from assms obtain x where x: "first_plane (fake_B cb m1) = Inr x"
    unfolding st by (cases "first_plane (fake_B cb m1)") simp_all
  from assms x obtain v where v: "set_plane D (gen_vol s1) k x = Inr v"
    unfolding st by (cases "set_plane D (gen_vol s1) k x") simp_all
  from assms x v have s': "model s' = m1" "gen_vol s' = v"
    unfolding st by (auto simp: s1_def split: if_splits)
  have g1: "gen_vol s1 = gen_vol s" by (simp add: s1_def)
  from v have kl: "k < length (gen_vol s)"
    unfolding set_plane_def g1 by (simp split: if_splits)
  from v kl obtain p where p: "broadcast2 D x = Inr p" "v = (gen_vol s)[k := p]"
    unfolding set_plane_def g1 by (cases "broadcast2 D x") simp_all
  show "model s' = run_test cb (set_input cb d (model s))" using s'(1) by (simp add: m1_def)
  show "k < length (gen_vol s)" by (rule kl)
  show "\<exists>x p. first_plane (fake_B cb (model s')) = Inr x \<and> broadcast2 D x = Inr p
           \<and> gen_vol s' = (gen_vol s)[k := p]"
    using x p s' by simp
qed

lemma model_after_Cons:
  "model_after cb m (d # ds) = model_after cb (run_test cb (set_input cb d m)) ds"
  by (simp add: model_after_def)

lemma slice_loop_Done:
  assumes "slice_loop cb D dir i (enumerate k bs) s = Done s'"
  shows "length (gen_vol s') = length (gen_vol s)
     \<and> (\<forall>j. j < k \<or> k + length bs \<le> j \<longrightarrow> gen_vol s' ! j = gen_vol s ! j)
     \<and> (\<forall>j<length bs. \<exists>x. inferred cb (model s) bs j = Inr x
            \<and> broadcast2 D x = Inr (gen_vol s' ! (k + j)))"
  using assms
proof (induction bs arbitrary: k s)
  case Nil
  then show ?case by simp
next
  case (Cons b bs)
  from Cons.prems obtain s1 where
    1: "slice_step cb D dir i (k, b) s = Done s1" and
    2: "slice_loop cb D dir i (enumerate (Suc k) bs) s1 = Done s'"
    by (auto dest: and_then_Done)
  note m1 = slice_step_Done(1) [OF 1] and kl = slice_step_Done(2) [OF 1]
  from slice_step_Done(3) [OF 1] obtain x p where
    x: "first_plane (fake_B cb (model s1)) = Inr x" and p: "broadcast2 D x = Inr p"
    and v1: "gen_vol s1 = (gen_vol s)[k := p]"
    by blast
  from Cons.IH [OF 2] have
    l: "length (gen_vol s') = length (gen_vol s1)" and
    u: "\<forall>j. j < Suc k \<or> Suc k + length bs \<le> j \<longrightarrow> gen_vol s' ! j = gen_vol s1 ! j" and
    f: "\<forall>j<length bs. \<exists>x. inferred cb (model s1) bs j = Inr x
            \<and> broadcast2 D x = Inr (gen_vol s' ! (Suc k + j))"
    by blast+
  have c1: "length (gen_vol s') = length (gen_vol s)" using l v1 by simp
  have c3: "\<forall>j. j < k \<or> k + length (b # bs) \<le> j \<longrightarrow> gen_vol s' ! j = gen_vol s ! j"
    using u v1 by auto
  have c4: "\<forall>j<length (b # bs). \<exists>x. inferred cb (model s) (b # bs) j = Inr x
            \<and> broadcast2 D x = Inr (gen_vol s' ! (k + j))"
  proof (intro allI impI)
    fix j assume j: "j < length (b # bs)"
    show "\<exists>x. inferred cb (model s) (b # bs) j = Inr x \<and> broadcast2 D x = Inr (gen_vol s' ! (k + j))"
    proof (cases j)
      case 0
      have "gen_vol s' ! k = p" using u v1 kl by simp
      then show ?thesis using 0 x p m1 by (simp add: inferred_def model_after_def)
    next
      case (Suc j')
      with j have "j' < length bs" by simp
      with f obtain y where "inferred cb (model s1) bs j' = Inr y"
        "broadcast2 D y = Inr (gen_vol s' ! (Suc k + j'))" by blast
      then show ?thesis using Suc m1 by (simp add: inferred_def model_after_Cons)
    qed
  qed
  from c1 c3 c4 show ?case by blast
qed

lemma zeros_shape:
  "length (zeros s h w :: ('a :: zero) vol) = s"
  "list_all (\<lambda>p. p = replicate h (replicate w (0 :: 'a))) (zeros s h w)"
  by (simp_all add: zeros_def list_all_iff)

subsection \<open>The calls of an evaluation run\<close>

lemma slice_step_calls:
  "\<exists>new. scalls (outcome_state (slice_step cb D dir i b s)) = scalls s @ new
       \<and> list_all is_slice_call new"
proof -
  define m1 where "m1 = run_test cb (set_input cb (snd b) (model s))"
  define s1 where "s1 = s\<lparr>model := m1, scalls := scalls s @ [SetInputSlice i (fst b), ModelTest i (fst b)]\<rparr>"
  define A where "A = [SetInputSlice i (fst b), ModelTest i (fst b)]"
  define B where "B = A @ [GetVisuals i (fst b), SaveSliceImages dir (fst b) i]"
  have okA: "list_all is_slice_call A" and okB: "list_all is_slice_call B"
    by (simp_all add: A_def B_def is_slice_call_def)
  have "scalls (outcome_state (slice_step cb D dir i b s)) = scalls s @ A
      \<or> scalls (outcome_state (slice_step cb D dir i b s)) = scalls s @ B"
    unfolding slice_step_def Let_def A_def B_def
    by (simp add: outcome_state_simps split: sum.splits)
  with okA okB show ?thesis by blast
qed

lemma slice_loop_calls:
  "\<exists>new. scalls (outcome_state (slice_loop cb D dir i bs s)) = scalls s @ new
       \<and> list_all is_slice_call new"
proof (induction bs arbitrary: s)
  case Nil
  show ?case by (simp add: outcome_state_simps)
next
  case (Cons b bs)
  from slice_step_calls [of cb D dir i b s] obtain a where
    a: "scalls (outcome_state (slice_step cb D dir i b s)) = scalls s @ a" "list_all is_slice_call a"
    by blast
  show ?case
  proof (cases "slice_step cb D dir i b s")
    case (Done s1)
    from Cons.IH [of s1] obtain c where
      c: "scalls (outcome_state (slice_loop cb D dir i bs s1)) = scalls s1 @ c" "list_all is_slice_call c"
      by blast
    have "scalls (outcome_state (slice_loop cb D dir i (b # bs) s)) = scalls s @ (a @ c)"
      using a(1) c(1) Done by (simp add: outcome_state_and_then outcome_state_simps)
    moreover have "list_all is_slice_call (a @ c)" using a(2) c(2) by simp
    ultimately show ?thesis by blast
  next
    case (Raised e s1)
    then have "scalls (outcome_state (slice_loop cb D dir i (b # bs) s)) = scalls s @ a"
      using a(1) by (simp add: outcome_state_and_then outcome_state_simps)
    with a(2) show ?thesis by blast
  qed
qed

lemma fill_volume_calls:
  fixes cb :: "('ds, 'd, 'm, 'a :: zero) collab"
  shows "\<exists>new. scalls (outcome_state (fill_volume cb opt dir i dataset m0 cs)) = cs @ new
       \<and> list_all is_slice_call new"
proof (cases "torch_zeros (length (batches cb dataset)) (vol_cube_dim opt) (vol_cube_dim opt) :: error + 'a vol")
  case (Inl e)
  then have "scalls (outcome_state (fill_volume cb opt dir i dataset m0 cs)) = cs @ []"
    by (simp add: fill_volume_def outcome_state_simps)
  then show ?thesis by (intro exI [of _ "[]"]) simp
next
  case (Inr v0)
  from slice_loop_calls [of cb "nat (vol_cube_dim opt)" dir i "enumerate 0 (batches cb dataset)"
      "\<lparr>model = m0, gen_vol = v0, scalls = cs\<rparr>"]
  show ?thesis using Inr by (simp add: fill_volume_def)
qed

lemma slice_calls_during_cases:
  "list_all is_slice_call l \<Longrightarrow> list_all (during_cases opt) l"
  by (induction l) (auto simp: is_slice_call_def during_cases_def is_find_limits_def split: ecall.splits)

lemma slice_calls_no_makedirs:
  "list_all is_slice_call l \<Longrightarrow> Makedirs d \<notin> set l"
  by (induction l) (auto simp: is_slice_call_def)

lemma ensure_dir_calls:
  "\<exists>new. ecalls (outcome_state (ensure_dir d es)) = ecalls es @ new \<and> list_all (during_cases opt) new"
proof -
  have "ecalls (outcome_state (ensure_dir d es)) = ecalls es @ []
      \<or> ecalls (outcome_state (ensure_dir d es)) = ecalls es @ [Makedirs d]"
    by (simp add: ensure_dir_def outcome_state_simps split: sum.splits)
  moreover have "list_all (during_cases opt) []" "list_all (during_cases opt) [Makedirs d]"
    by (simp_all add: during_cases_def is_find_limits_def)
  ultimately show ?thesis by blast
qed

lemma save_volume_calls:
  "\<exists>new. ecalls (outcome_state (save_volume opt d v es)) = ecalls es @ new
       \<and> list_all (during_cases opt') new"
proof -
  let ?pt = "path_join d [''atme_vol.pt'']" and ?nii = "path_join d [''atme_vol.nii.gz'']"
  have "ecalls (outcome_state (save_volume opt d v es)) = ecalls es @ []
      \<or> ecalls (outcome_state (save_volume opt d v es)) = ecalls es @ [TorchSave ?pt]
      \<or> ecalls (outcome_state (save_volume opt d v es)) = ecalls es @ [TorchSave ?pt, SaveNifti ?nii]"
    unfolding save_volume_def Let_def
    by (simp add: outcome_state_simps split: sum.splits)
  moreover have "list_all (during_cases opt') []" "list_all (during_cases opt') [TorchSave ?pt]"
    "list_all (during_cases opt') [TorchSave ?pt, SaveNifti ?nii]"
    by (simp_all add: during_cases_def is_find_limits_def)
  ultimately show ?thesis by blast
qed


lemma test_case_calls:
  fixes cb :: "('ds, 'd, 'm, 'a :: zero) collab"
  shows "\<exists>new. ecalls (outcome_state (test_case cb opt dir n c es)) = ecalls es @ new
       \<and> list_all (during_cases opt) new"
proof (cases "data_dir opt")
  case None
  have "list_all (during_cases opt) [PrintCase (fst c) n (fst (snd c))]"
    by (simp add: during_cases_def is_find_limits_def)
  moreover have "ecalls (outcome_state (test_case cb opt dir n c es))
      = ecalls es @ [PrintCase (fst c) n (fst (snd c))]"
    using None by (simp add: test_case_def Let_def outcome_state_simps)
  ultimately show ?thesis by blast
next
  case (Some dd)
  let ?i = "fst c" and ?cor = "fst (snd c)" and ?ax = "snd (snd c)"
  let ?es1 = "es\<lparr>ecalls := ecalls es @ [PrintCase ?i n ?cor]\<rparr>"
  let ?d = "case_dir dd ?i"
  let ?ds = "create_dataset cb opt ?cor ?i ?ax"
  let ?P = "[PrintCase ?i n ?cor]"
  let ?Q = "[CreateTestDataset opt ?cor ?i ?ax, CreateModel opt, ModelSetup opt, ModelEval]"
  have okP: "list_all (during_cases opt) ?P" and okQ: "list_all (during_cases opt) ?Q"
    by (simp_all add: during_cases_def is_find_limits_def)
  from ensure_dir_calls [of ?d ?es1 opt] obtain a where
    a: "ecalls (outcome_state (ensure_dir ?d ?es1)) = ecalls ?es1 @ a" "list_all (during_cases opt) a"
    by blast
  show ?thesis
  proof (cases "ensure_dir ?d ?es1")
    case (Raised e es2)
    have "ecalls (outcome_state (test_case cb opt dir n c es)) = ecalls es @ (?P @ a)"
      using Some Raised a(1)
      by (simp add: test_case_def Let_def outcome_state_and_then outcome_state_simps)
    moreover have "list_all (during_cases opt) (?P @ a)" using okP a(2) by simp
    ultimately show ?thesis by blast
  next
    case (Done es2)
    let ?cs = "ecalls es2 @ ?Q"
    let ?m0 = "create_model cb opt ?ds"
    have e2: "ecalls es2 = ecalls es @ ?P @ a"
      using Done a(1) by (simp add: outcome_state_simps)
    from fill_volume_calls [of cb opt dir ?i ?ds ?m0 ?cs] obtain f where
      f: "scalls (outcome_state (fill_volume cb opt dir ?i ?ds ?m0 ?cs)) = ?cs @ f"
         "list_all (during_cases opt) f"
      by (blast intro: slice_calls_during_cases)
    show ?thesis
    proof (cases "fill_volume cb opt dir ?i ?ds ?m0 ?cs")
      case (Raised e s)
      have "ecalls (outcome_state (test_case cb opt dir n c es)) = ecalls es @ (?P @ a @ ?Q @ f)"
        using Some Done Raised f(1) e2
        by (simp add: test_case_def Let_def outcome_state_and_then outcome_state_simps)
      moreover have "list_all (during_cases opt) (?P @ a @ ?Q @ f)"
        using okP okQ a(2) f(2) by simp
      ultimately show ?thesis by blast
    next
      case (Done s)
      let ?es3 = "es2\<lparr>ecalls := scalls s @ [CropVolume ?i]\<rparr>"
      let ?v = "crop_volume cb ?ds (gen_vol s)"
      from save_volume_calls [of opt ?d ?v ?es3 opt] obtain g where
        g: "ecalls (outcome_state (save_volume opt ?d ?v ?es3)) = ecalls ?es3 @ g"
           "list_all (during_cases opt) g"
        by blast
      have s: "scalls s = ?cs @ f" using Done f(1) by (simp add: outcome_state_simps)
      have tc: "test_case cb opt dir n c es = save_volume opt ?d ?v ?es3"
        using Some \<open>ensure_dir ?d ?es1 = Done es2\<close> Done
        by (simp add: test_case_def Let_def and_then_def)
      have "ecalls (outcome_state (test_case cb opt dir n c es))
          = ecalls es @ (?P @ a @ ?Q @ f @ [CropVolume ?i] @ g)"
        unfolding tc g(1) using s e2 by simp
      moreover have "list_all (during_cases opt) (?P @ a @ ?Q @ f @ [CropVolume ?i] @ g)"
        using okP okQ a(2) f(2) g(2) by (simp add: during_cases_def is_find_limits_def)
      ultimately show ?thesis by blast
    qed
  qed
qed

lemma ensure_dir_ecfg: "ecfg (outcome_state (ensure_dir d es)) = ecfg es"
  by (simp add: ensure_dir_def outcome_state_simps split: sum.splits)

lemma save_volume_ecfg: "ecfg (outcome_state (save_volume opt d v es)) = ecfg es"
  by (simp add: save_volume_def Let_def outcome_state_simps split: sum.splits)

lemma test_case_ecfg:
  fixes cb :: "('ds, 'd, 'm, 'a :: zero) collab"
  shows "ecfg (outcome_state (test_case cb opt dir n c es)) = ecfg es"
proof (cases "data_dir opt")
  case None
  then show ?thesis by (simp add: test_case_def Let_def outcome_state_simps)
next
  case (Some dd)
  let ?es1 = "es\<lparr>ecalls := ecalls es @ [PrintCase (fst c) n (fst (snd c))]\<rparr>"
  let ?ds = "create_dataset cb opt (fst (snd c)) (fst c) (snd (snd c))"
  let ?Q = "[CreateTestDataset opt (fst (snd c)) (fst c) (snd (snd c)), CreateModel opt,
             ModelSetup opt, ModelEval]"
  let ?k = "\<lambda>es2. case fill_volume cb opt dir (fst c) ?ds (create_model cb opt ?ds) (ecalls es2 @ ?Q) of
                Raised e s \<Rightarrow> Raised e (es2\<lparr>ecalls := scalls s\<rparr>)
              | Done s \<Rightarrow> save_volume opt (case_dir dd (fst c)) (crop_volume cb ?ds (gen_vol s))
                    (es2\<lparr>ecalls := scalls s @ [CropVolume (fst c)]\<rparr>)"
  have tc: "test_case cb opt dir n c es = and_then (ensure_dir (case_dir dd (fst c)) ?es1) ?k"
    using Some by (simp add: test_case_def Let_def)
  have k: "ecfg (outcome_state (?k es2)) = ecfg es2" for es2
    by (cases "fill_volume cb opt dir (fst c) ?ds (create_model cb opt ?ds) (ecalls es2 @ ?Q)")
       (simp_all add: outcome_state_simps save_volume_ecfg)
  show ?thesis
  proof (cases "ensure_dir (case_dir dd (fst c)) ?es1")
    case (Done es2)
    with ensure_dir_ecfg [of "case_dir dd (fst c)" ?es1] have "ecfg es2 = ecfg es"
      by (simp add: outcome_state_simps)
    with Done k [of es2] show ?thesis unfolding tc by (simp add: and_then_def)
  next
    case (Raised e es2)
    with ensure_dir_ecfg [of "case_dir dd (fst c)" ?es1] have "ecfg es2 = ecfg es"
      by (simp add: outcome_state_simps)
    with Raised show ?thesis unfolding tc by (simp add: and_then_def outcome_state_simps)
  qed
qed

lemma case_loop_calls:
  fixes cb :: "('ds, 'd, 'm, 'a :: zero) collab"
  assumes "ecfg es = opt"
  shows "ecfg (outcome_state (case_loop cb dir n cs es)) = opt
     \<and> (\<exists>new. ecalls (outcome_state (case_loop cb dir n cs es)) = ecalls es @ new
           \<and> list_all (during_cases opt) new)"
  using assms
proof (induction cs arbitrary: es)
  case Nil
  then show ?case by (simp add: outcome_state_simps)
next
  case (Cons c cs)
  from test_case_calls [of cb opt dir n c es] obtain a where
    a: "ecalls (outcome_state (test_case cb opt dir n c es)) = ecalls es @ a"
       "list_all (during_cases opt) a"
    by blast
  note f = test_case_ecfg [of cb opt dir n c es]
  show ?case
  proof (cases "test_case cb opt dir n c es")
    case (Done es1)
    with f Cons.prems have c1: "ecfg es1 = opt" by (simp add: outcome_state_simps)
    from Cons.IH [OF c1] obtain b where
      c2: "ecfg (outcome_state (case_loop cb dir n cs es1)) = opt" and
      b: "ecalls (outcome_state (case_loop cb dir n cs es1)) = ecalls es1 @ b"
         "list_all (during_cases opt) b"
      by blast
    have "ecalls (outcome_state (case_loop cb dir n (c # cs) es)) = ecalls es @ (a @ b)"
      using a(1) b(1) Done Cons.prems by (simp add: outcome_state_and_then outcome_state_simps)
    moreover have "list_all (during_cases opt) (a @ b)" using a(2) b(2) by simp
    moreover have "ecfg (outcome_state (case_loop cb dir n (c # cs) es)) = opt"
      using c2 Done Cons.prems by (simp add: outcome_state_and_then outcome_state_simps)
    ultimately show ?thesis by blast
  next
    case (Raised e es1)
    with f Cons.prems have c1: "ecfg es1 = opt" by (simp add: outcome_state_simps)
    have "ecalls (outcome_state (case_loop cb dir n (c # cs) es)) = ecalls es @ a"
      using a(1) Raised Cons.prems by (simp add: outcome_state_and_then outcome_state_simps)
    moreover have "ecfg (outcome_state (case_loop cb dir n (c # cs) es)) = opt"
      using c1 Raised Cons.prems by (simp add: outcome_state_and_then outcome_state_simps)
    ultimately show ?thesis using a(2) by blast
  qed
qed

lemma during_cases_filter:
  assumes "list_all (during_cases opt) l"
  shows "filter is_find_limits l = []"
    and "list_all (\<lambda>opt'. opt' = opt) (concat (map opt_seen l))"
  using assms by (induction l) (simp_all add: during_cases_def)

subsection \<open>Paths of a case\<close>

lemma digit_char_not_slash: "d < 10 \<Longrightarrow> digit_char d \<noteq> CHR ''/''"
proof
  assume d: "d < 10" and e: "digit_char d = CHR ''/''"
  from e have "of_char (digit_char d) = (of_char CHR ''/'' :: nat)" by simp
  then have "(48 + d) mod 256 = 47" by (simp add: digit_char_def)
  with d show False by simp
qed

lemma str_nat_last: "str_nat n \<noteq> [] \<and> last (str_nat n) = digit_char (n mod 10)"
  by (subst (1 2) str_nat.simps) simp

lemma join2_append:
  assumes "b \<noteq> []" and "hd b \<noteq> CHR ''/''"
  shows "join2 a b = a @ b \<or> join2 a b = a @ CHR ''/'' # b"
  using assms by (simp add: join2_def)

lemma case_dir_end: "case_dir dd i \<noteq> [] \<and> last (case_dir dd i) \<noteq> CHR ''/''"
proof -
  let ?b = "''case_'' @ str_nat i"
  let ?a = "join2 dd ''generation''"
  have b: "?b \<noteq> []" "hd ?b \<noteq> CHR ''/''" by simp_all
  have l: "last ?b \<noteq> CHR ''/''"
    using str_nat_last [of i] digit_char_not_slash [of "i mod 10"] by simp
  have c: "case_dir dd i = join2 ?a ?b" by (simp add: case_dir_def path_join_def)
  from join2_append [OF b, of ?a] show ?thesis
  proof
    assume "join2 ?a ?b = ?a @ ?b"
    then show ?thesis unfolding c using l by simp
  next
    assume "join2 ?a ?b = ?a @ CHR ''/'' # ?b"
    then show ?thesis unfolding c using l by simp
  qed
qed

lemma path_join_file:
  assumes "d \<noteq> []" and "last d \<noteq> CHR ''/''" and "f \<noteq> []" and "hd f \<noteq> CHR ''/''"
  shows "path_join d [f] = d @ CHR ''/'' # f"
  using assms by (simp add: path_join_def join2_def)

lemma dirname_file:
  assumes "d \<noteq> []" and "last d \<noteq> CHR ''/''" and "CHR ''/'' \<notin> set f"
  shows "dirname (d @ CHR ''/'' # f) = d"
proof -
  let ?P = "\<lambda>c. c \<noteq> CHR ''/''" and ?Q = "\<lambda>c. c = CHR ''/''"
  have "dropWhile ?P (rev f @ CHR ''/'' # rev d) = dropWhile ?P (CHR ''/'' # rev d)"
    by (rule dropWhile_append2) (use assms(3) in auto)
  also have "\<dots> = CHR ''/'' # rev d" by simp
  finally have 1: "rev (dropWhile ?P (rev (d @ CHR ''/'' # f))) = d @ [CHR ''/'']"
    by simp
  have "last d \<in> set d" using assms(1) by (rule last_in_set)
  with assms(2) have "\<not> list_all ?Q d" unfolding list_all_iff by blast
  then have 2: "\<not> list_all ?Q (d @ [CHR ''/''])" by simp
  obtain c cs where r: "rev d = c # cs" using assms(1) by (cases "rev d") auto
  then have "c = last d" by (metis last_rev list.sel(1) rev_rev_ident)
  with assms(2) have "dropWhile ?Q (c # cs) = c # cs" by simp
  then have 3: "rev (dropWhile ?Q (rev (d @ [CHR ''/'']))) = d"
    using r by simp
  show ?thesis
    unfolding dirname_def Let_def 1 using 2 3 by (simp only: if_False)
qed

subsection \<open>The files of a case\<close>

lemma parents_shorter: "q \<in> set (parents p) \<Longrightarrow> length q < length p"
  by (auto simp: parents_def)

lemma makedirs_Inr:
  assumes "makedirs p f = Inr f'"
  shows "\<not> path_exists f p" and "f' p = Some Dir"
    and "length p < length q \<Longrightarrow> f' q = f q"
proof -
  from assms have c: "\<not> path_exists f p" "\<not> list_ex (\<lambda>q. is_file (f q)) (parents p)"
    by (auto simp: makedirs_def split: if_splits)
  with assms have f': "f' = (\<lambda>q. if q = p \<or> (q \<in> set (parents p) \<and> f q = None) then Some Dir else f q)"
    by (simp add: makedirs_def)
  show "\<not> path_exists f p" by (rule c(1))
  show "f' p = Some Dir" by (simp add: f')
  show "f' q = f q" if "length p < length q"
  proof -
    from that have "q \<noteq> p" by auto
    moreover from that have "q \<notin> set (parents p)" using parents_shorter [of q p] by auto
    ultimately show ?thesis by (simp add: f')
  qed
qed

lemma write_file_Inr:
  assumes "write_file p a f = Inr f'"
  shows "f (dirname p) = Some Dir" and "f' = f(p \<mapsto> File a)"
  using assms
  by (auto simp: write_file_def split: option.splits node.splits)

lemma ensure_dir_Done:
  assumes "ensure_dir d es = Done es'"
  shows "path_exists (files es) d \<Longrightarrow> es' = es"
    and "\<not> path_exists (files es) d \<Longrightarrow>
           makedirs d (files es) = Inr (files es') \<and> ecalls es' = ecalls es @ [Makedirs d]"
  using assms by (auto simp: ensure_dir_def split: sum.splits if_splits)

lemma save_volume_Done:
  assumes "save_volume opt d v es = Done es'" and "d \<noteq> []" and "last d \<noteq> CHR ''/''"
  shows "files es d = Some Dir"
    and "files es' =
       (if save_nifti opt
        then (files es)(d @ ''/atme_vol.pt'' \<mapsto> File (TorchFile v),
                        d @ ''/atme_vol.nii.gz'' \<mapsto> File (NiftiFile v))
        else (files es)(d @ ''/atme_vol.pt'' \<mapsto> File (TorchFile v)))"
    and "ecalls es' = ecalls es @ TorchSave (d @ ''/atme_vol.pt'') #
           (if save_nifti opt then [SaveNifti (d @ ''/atme_vol.nii.gz'')] else [])"
proof -
  let ?pt = "d @ ''/atme_vol.pt''" and ?nii = "d @ ''/atme_vol.nii.gz''"
  have pt: "path_join d [''atme_vol.pt''] = ?pt"
    using path_join_file [OF assms(2,3), of "''atme_vol.pt''"] by simp
  have nii: "path_join d [''atme_vol.nii.gz''] = ?nii"
    using path_join_file [OF assms(2,3), of "''atme_vol.nii.gz''"] by simp
  have dpt: "dirname ?pt = d"
    using dirname_file [OF assms(2,3), of "''atme_vol.pt''"] by simp
  from assms(1) obtain f1 where f1: "write_file ?pt (TorchFile v) (files es) = Inr f1"
    unfolding save_volume_def Let_def pt
    by (cases "write_file ?pt (TorchFile v) (files es)") simp_all
  note w1 = write_file_Inr [OF f1]
  show "files es d = Some Dir" using w1(1) unfolding dpt .
  define es1 where "es1 = es\<lparr>files := f1, ecalls := ecalls es @ [TorchSave ?pt]\<rparr>"
  have sv: "save_volume opt d v es =
      (if save_nifti opt then
         (case write_file ?nii (NiftiFile v) f1 of
            Inl e \<Rightarrow> Raised e es1
          | Inr f' \<Rightarrow> Done (es1\<lparr>files := f', ecalls := ecalls es1 @ [SaveNifti ?nii]\<rparr>))
       else Done es1)"
    unfolding save_volume_def Let_def pt nii es1_def using f1 by simp
  show "files es' =
       (if save_nifti opt
        then (files es)(?pt \<mapsto> File (TorchFile v), ?nii \<mapsto> File (NiftiFile v))
        else (files es)(?pt \<mapsto> File (TorchFile v)))"
  proof (cases "save_nifti opt")
    case False
    with assms(1) sv have "es' = es1" by simp
    then show ?thesis using False w1(2) by (simp add: es1_def)
  next
    case True
    with assms(1) sv obtain f2 where f2: "write_file ?nii (NiftiFile v) f1 = Inr f2"
      and e: "es' = es1\<lparr>files := f2, ecalls := ecalls es1 @ [SaveNifti ?nii]\<rparr>"
      by (cases "write_file ?nii (NiftiFile v) f1") simp_all
    from write_file_Inr(2) [OF f2] e w1(2) True show ?thesis by simp
  qed
  show "ecalls es' = ecalls es @ TorchSave ?pt #
           (if save_nifti opt then [SaveNifti ?nii] else [])"
  proof (cases "save_nifti opt")
    case False
    with assms(1) sv have "es' = es1" by simp
    then show ?thesis using False by (simp add: es1_def)
  next
    case True
    with assms(1) sv obtain f2 where
      e: "es' = es1\<lparr>files := f2, ecalls := ecalls es1 @ [SaveNifti ?nii]\<rparr>"
      by (cases "write_file ?nii (NiftiFile v) f1") auto
    then show ?thesis using True by (simp add: es1_def)
  qed
qed

lemma test_case_Done:
  fixes cb :: "('ds, 'd, 'm, 'a :: zero) collab"
  assumes "test_case cb opt fig n (i, cor, ax) es = Done es'" and "data_dir opt = Some dd"
  shows "\<exists>es2 s.
      ensure_dir (case_dir dd i) (es\<lparr>ecalls := ecalls es @ [PrintCase i n cor]\<rparr>) = Done es2
    \<and> fill_volume cb opt fig i (create_dataset cb opt cor i ax)
         (create_model cb opt (create_dataset cb opt cor i ax))
         (ecalls es2 @ [CreateTestDataset opt cor i ax, CreateModel opt, ModelSetup opt, ModelEval])
       = Done s
    \<and> save_volume opt (case_dir dd i) (crop_volume cb (create_dataset cb opt cor i ax) (gen_vol s))
         (es2\<lparr>ecalls := scalls s @ [CropVolume i]\<rparr>) = Done es'"
proof -
  let ?es1 = "es\<lparr>ecalls := ecalls es @ [PrintCase i n cor]\<rparr>"
  let ?ds = "create_dataset cb opt cor i ax"
  let ?Q = "[CreateTestDataset opt cor i ax, CreateModel opt, ModelSetup opt, ModelEval]"
  let ?k = "\<lambda>es2. case fill_volume cb opt fig i ?ds (create_model cb opt ?ds) (ecalls es2 @ ?Q) of
                Raised e s \<Rightarrow> Raised e (es2\<lparr>ecalls := scalls s\<rparr>)
              | Done s \<Rightarrow> save_volume opt (case_dir dd i) (crop_volume cb ?ds (gen_vol s))
                    (es2\<lparr>ecalls := scalls s @ [CropVolume i]\<rparr>)"
  have tc: "test_case cb opt fig n (i, cor, ax) es = and_then (ensure_dir (case_dir dd i) ?es1) ?k"
    using assms(2) by (simp add: test_case_def Let_def)
  from assms(1) obtain es2 where 1: "ensure_dir (case_dir dd i) ?es1 = Done es2"
    and 2: "?k es2 = Done es'"
    unfolding tc by (blast dest: and_then_Done)
  from 2 obtain s where 3: "fill_volume cb opt fig i ?ds (create_model cb opt ?ds) (ecalls es2 @ ?Q) = Done s"
    by (cases "fill_volume cb opt fig i ?ds (create_model cb opt ?ds) (ecalls es2 @ ?Q)") simp_all
  with 2 have 4: "save_volume opt (case_dir dd i) (crop_volume cb ?ds (gen_vol s))
         (es2\<lparr>ecalls := scalls s @ [CropVolume i]\<rparr>) = Done es'"
    by simp
  from 1 3 4 show ?thesis by blast
qed

subsection \<open>An existing directory is not an error\<close>

lemma write_file_ok:
  assumes "f (dirname p) = Some Dir" and "f p \<noteq> Some Dir"
  shows "write_file p a f = Inr (f(p \<mapsto> File a))"
  using assms by (auto simp: write_file_def split: option.splits node.splits)

lemma write_file_Inl:
  "write_file p a f = Inl e \<Longrightarrow> e \<noteq> FileExistsError"
  by (auto simp: write_file_def split: option.splits node.splits)

lemma ensure_dir_exists:
  "path_exists (files es) d \<Longrightarrow> ensure_dir d es = Done es"
  by (simp add: ensure_dir_def)

lemma ensure_dir_Raised:
  "ensure_dir d es = Raised e es' \<Longrightarrow> e \<noteq> FileExistsError"
  by (auto simp: ensure_dir_def makedirs_def split: if_splits sum.splits)

lemma save_volume_Raised:
  "save_volume opt d v es = Raised e es' \<Longrightarrow> e \<noteq> FileExistsError"
  by (auto simp: save_volume_def Let_def split: sum.splits if_splits dest: write_file_Inl)

lemma slice_step_Raised:
  "slice_step cb D dir i b s = Raised e s' \<Longrightarrow> e = IndexError \<or> e = RuntimeError"
  by (auto simp: slice_step_def Let_def first_plane_def set_plane_def broadcast2_def
      split: sum.splits if_splits list.splits)

lemma slice_loop_Raised:
  "slice_loop cb D dir i bs s = Raised e s' \<Longrightarrow> e = IndexError \<or> e = RuntimeError"
proof (induction bs arbitrary: s)
  case Nil
  then show ?case by simp
next
  case (Cons b bs)
  from Cons.prems consider "slice_step cb D dir i b s = Raised e s'"
    | s1 where "slice_step cb D dir i b s = Done s1" "slice_loop cb D dir i bs s1 = Raised e s'"
    by (auto dest: and_then_Raised)
  then show ?case
  proof cases
    case 1
    then show ?thesis by (rule slice_step_Raised)
  next
    case 2
    from Cons.IH [OF 2(2)] show ?thesis .
  qed
qed

lemma fill_volume_Raised:
  fixes cb :: "('ds, 'd, 'm, 'a :: zero) collab"
  assumes "fill_volume cb opt dir i ds m0 cs = Raised e s'"
  shows "e = IndexError \<or> e = RuntimeError"
proof (cases "torch_zeros (length (batches cb ds)) (vol_cube_dim opt) (vol_cube_dim opt) :: error + 'a vol")
  case (Inl x)
  with assms show ?thesis
    by (auto simp: fill_volume_def torch_zeros_def split: if_splits)
next
  case (Inr v0)
  with assms show ?thesis
    by (auto simp: fill_volume_def dest: slice_loop_Raised)
qed

lemma test_case_no_exists_error:
  fixes cb :: "('ds, 'd, 'm, 'a :: zero) collab"
  shows "test_case cb opt fig n c es \<noteq> Raised FileExistsError es'"
proof (cases "data_dir opt")
  case None
  then show ?thesis by (simp add: test_case_def Let_def)
next
  case (Some dd)
  let ?es1 = "es\<lparr>ecalls := ecalls es @ [PrintCase (fst c) n (fst (snd c))]\<rparr>"
  let ?ds = "create_dataset cb opt (fst (snd c)) (fst c) (snd (snd c))"
  let ?Q = "[CreateTestDataset opt (fst (snd c)) (fst c) (snd (snd c)), CreateModel opt,
             ModelSetup opt, ModelEval]"
  let ?k = "\<lambda>es2. case fill_volume cb opt fig (fst c) ?ds (create_model cb opt ?ds) (ecalls es2 @ ?Q) of
                Raised e s \<Rightarrow> Raised e (es2\<lparr>ecalls := scalls s\<rparr>)
              | Done s \<Rightarrow> save_volume opt (case_dir dd (fst c)) (crop_volume cb ?ds (gen_vol s))
                    (es2\<lparr>ecalls := scalls s @ [CropVolume (fst c)]\<rparr>)"
  have tc: "test_case cb opt fig n c es = and_then (ensure_dir (case_dir dd (fst c)) ?es1) ?k"
    using Some by (simp add: test_case_def Let_def)
  have k: "?k es2 \<noteq> Raised FileExistsError es'" for es2
  proof (cases "fill_volume cb opt fig (fst c) ?ds (create_model cb opt ?ds) (ecalls es2 @ ?Q)")
    case (Done s)
    then show ?thesis by (auto dest: save_volume_Raised)
  next
    case (Raised e s)
    from fill_volume_Raised [OF this] have "e \<noteq> FileExistsError" by auto
    with Raised show ?thesis by simp
  qed
  show ?thesis
  proof
    assume "test_case cb opt fig n c es = Raised FileExistsError es'"
    then consider "ensure_dir (case_dir dd (fst c)) ?es1 = Raised FileExistsError es'"
      | es2 where "?k es2 = Raised FileExistsError es'"
      unfolding tc by (blast dest: and_then_Raised)
    then show False
    proof cases
      case 1
      then show False by (auto dest: ensure_dir_Raised)
    next
      case 2
      with k show False by blast
    qed
  qed
qed

lemma test_case_existing_dir:
  fixes cb :: "('ds, 'd, 'm, 'a :: zero) collab"
  assumes dd: "data_dir opt = Some dd"
    and d: "files es (case_dir dd i) = Some Dir"
    and fv: "fill_volume cb opt fig i (create_dataset cb opt cor i ax)
               (create_model cb opt (create_dataset cb opt cor i ax))
               (ecalls es @ [PrintCase i n cor, CreateTestDataset opt cor i ax, CreateModel opt,
                             ModelSetup opt, ModelEval]) = Done s"
    and pt: "files es (case_dir dd i @ ''/atme_vol.pt'') \<noteq> Some Dir"
    and nii: "save_nifti opt \<longrightarrow> files es (case_dir dd i @ ''/atme_vol.nii.gz'') \<noteq> Some Dir"
  shows "test_case cb opt fig n (i, cor, ax) es =
     Done (es\<lparr>files :=
               (if save_nifti opt
                then (files es)(case_dir dd i @ ''/atme_vol.pt'' \<mapsto>
                         File (TorchFile (crop_volume cb (create_dataset cb opt cor i ax) (gen_vol s))),
                       case_dir dd i @ ''/atme_vol.nii.gz'' \<mapsto>
                         File (NiftiFile (crop_volume cb (create_dataset cb opt cor i ax) (gen_vol s))))
                else (files es)(case_dir dd i @ ''/atme_vol.pt'' \<mapsto>
                         File (TorchFile (crop_volume cb (create_dataset cb opt cor i ax) (gen_vol s))))),
              ecalls := scalls s @ CropVolume i # TorchSave (case_dir dd i @ ''/atme_vol.pt'') #
                 (if save_nifti opt then [SaveNifti (case_dir dd i @ ''/atme_vol.nii.gz'')] else [])\<rparr>)"
proof -
  let ?d = "case_dir dd i"
  let ?pt = "?d @ ''/atme_vol.pt''" and ?nii = "?d @ ''/atme_vol.nii.gz''"
  let ?ds = "create_dataset cb opt cor i ax"
  let ?v = "crop_volume cb ?ds (gen_vol s)"
  let ?es1 = "es\<lparr>ecalls := ecalls es @ [PrintCase i n cor]\<rparr>"
  let ?es3 = "?es1\<lparr>ecalls := scalls s @ [CropVolume i]\<rparr>"
  have dn: "?d \<noteq> []" "last ?d \<noteq> CHR ''/''" using case_dir_end [of dd i] by simp_all
  have jp: "path_join ?d [''atme_vol.pt''] = ?pt"
    using path_join_file [OF dn, of "''atme_vol.pt''"] by simp
  have jn: "path_join ?d [''atme_vol.nii.gz''] = ?nii"
    using path_join_file [OF dn, of "''atme_vol.nii.gz''"] by simp
  have dp: "dirname ?pt = ?d" using dirname_file [OF dn, of "''atme_vol.pt''"] by simp
  have dq: "dirname ?nii = ?d" using dirname_file [OF dn, of "''atme_vol.nii.gz''"] by simp
  have en: "ensure_dir ?d ?es1 = Done ?es1"
    by (rule ensure_dir_exists) (simp add: path_exists_def d)
  have w1: "write_file ?pt (TorchFile ?v) (files es) = Inr ((files es)(?pt \<mapsto> File (TorchFile ?v)))"
    by (rule write_file_ok) (simp_all add: dp d pt)
  let ?f1 = "(files es)(?pt \<mapsto> File (TorchFile ?v))"
  have w2: "write_file ?nii (NiftiFile ?v) ?f1 = Inr (?f1(?nii \<mapsto> File (NiftiFile ?v)))"
    if "save_nifti opt"
    by (rule write_file_ok) (use that nii d in \<open>simp_all add: dq\<close>)
  have sv: "save_volume opt ?d ?v ?es3 =
     Done (es\<lparr>files := (if save_nifti opt then ?f1(?nii \<mapsto> File (NiftiFile ?v)) else ?f1),
              ecalls := scalls s @ CropVolume i # TorchSave ?pt #
                 (if save_nifti opt then [SaveNifti ?nii] else [])\<rparr>)"
    unfolding save_volume_def Let_def jp jn using w1 w2 by simp
  have "test_case cb opt fig n (i, cor, ax) es = save_volume opt ?d ?v ?es3"
    using dd en fv by (simp add: test_case_def Let_def and_then_def)
  with sv show ?thesis by simp
qed

lemma ensure_dir_log:
  "ecalls (outcome_state (ensure_dir d es)) = ecalls es
   \<or> (ecalls (outcome_state (ensure_dir d es)) = ecalls es @ [Makedirs d]
        \<and> \<not> path_exists (files es) d)"
  by (simp add: ensure_dir_def outcome_state_simps split: sum.splits)

lemma save_volume_log:
  "\<exists>new. ecalls (outcome_state (save_volume opt d v es)) = ecalls es @ new
       \<and> (\<forall>p. Makedirs p \<notin> set new)"
proof -
  let ?pt = "path_join d [''atme_vol.pt'']" and ?nii = "path_join d [''atme_vol.nii.gz'']"
  have "ecalls (outcome_state (save_volume opt d v es)) = ecalls es @ []
      \<or> ecalls (outcome_state (save_volume opt d v es)) = ecalls es @ [TorchSave ?pt]
      \<or> ecalls (outcome_state (save_volume opt d v es)) = ecalls es @ [TorchSave ?pt, SaveNifti ?nii]"
    unfolding save_volume_def Let_def
    by (simp add: outcome_state_simps split: sum.splits)
  moreover have "\<forall>p. Makedirs p \<notin> set ([] :: ecall list)" "\<forall>p. Makedirs p \<notin> set [TorchSave ?pt]"
    "\<forall>p. Makedirs p \<notin> set [TorchSave ?pt, SaveNifti ?nii]"
    by simp_all
  ultimately show ?thesis by blast
qed

lemma test_case_makedirs:
  fixes cb :: "('ds, 'd, 'm, 'a :: zero) collab"
  assumes dd: "data_dir opt = Some dd"
  shows "\<exists>new. ecalls (outcome_state (test_case cb opt dir n (i, cor, ax) es)) = ecalls es @ new
       \<and> (\<forall>p. Makedirs p \<in> set new \<longrightarrow> p = case_dir dd i \<and> \<not> path_exists (files es) p)"
proof -
  let ?es1 = "es\<lparr>ecalls := ecalls es @ [PrintCase i n cor]\<rparr>"
  let ?d = "case_dir dd i"
  let ?ds = "create_dataset cb opt cor i ax"
  let ?P = "[PrintCase i n cor]"
  let ?Q = "[CreateTestDataset opt cor i ax, CreateModel opt, ModelSetup opt, ModelEval]"
  let ?ok = "\<lambda>new. \<forall>p. Makedirs p \<in> set new \<longrightarrow> p = ?d \<and> \<not> path_exists (files es) p"
  let ?r = "test_case cb opt dir n (i, cor, ax) es"
  from ensure_dir_log [of ?d ?es1] obtain a where
    a: "ecalls (outcome_state (ensure_dir ?d ?es1)) = ecalls ?es1 @ a" "?ok a"
    by fastforce
  have okP: "?ok ?P" and okQ: "?ok ?Q" by simp_all
  show ?thesis
  proof (cases "ensure_dir ?d ?es1")
    case (Raised e es2)
    have "ecalls (outcome_state ?r) = ecalls es @ (?P @ a)"
      using dd Raised a(1)
      by (simp add: test_case_def Let_def outcome_state_and_then outcome_state_simps)
    moreover have "?ok (?P @ a)" using a(2) by simp
    ultimately show ?thesis by blast
  next
    case (Done es2)
    let ?cs = "ecalls es2 @ ?Q"
    let ?m0 = "create_model cb opt ?ds"
    have e2: "ecalls es2 = ecalls es @ ?P @ a"
      using Done a(1) by (simp add: outcome_state_simps)
    from fill_volume_calls [of cb opt dir i ?ds ?m0 ?cs] obtain f where
      f: "scalls (outcome_state (fill_volume cb opt dir i ?ds ?m0 ?cs)) = ?cs @ f"
         "list_all is_slice_call f"
      by blast
    have okf: "?ok f" using slice_calls_no_makedirs [OF f(2)] by simp
    show ?thesis
    proof (cases "fill_volume cb opt dir i ?ds ?m0 ?cs")
      case (Raised e s)
      have "ecalls (outcome_state ?r) = ecalls es @ (?P @ a @ ?Q @ f)"
        using dd Done Raised f(1) e2
        by (simp add: test_case_def Let_def outcome_state_and_then outcome_state_simps)
      moreover have "?ok (?P @ a @ ?Q @ f)"
        using a(2) okf by simp
      ultimately show ?thesis by blast
    next
      case fd: (Done s)
      let ?es3 = "es2\<lparr>ecalls := scalls s @ [CropVolume i]\<rparr>"
      let ?v = "crop_volume cb ?ds (gen_vol s)"
      from save_volume_log [of opt ?d ?v ?es3] obtain g where
        g: "ecalls (outcome_state (save_volume opt ?d ?v ?es3)) = ecalls ?es3 @ g"
           "\<forall>p. Makedirs p \<notin> set g"
        by blast
      have s: "scalls s = ?cs @ f" using fd f(1) by (simp add: outcome_state_simps)
      have tc: "?r = save_volume opt ?d ?v ?es3"
        using dd Done fd by (simp add: test_case_def Let_def and_then_def)
      have "ecalls (outcome_state ?r) = ecalls es @ (?P @ a @ ?Q @ f @ CropVolume i # g)"
        unfolding tc g(1) using s e2 by simp
      moreover have "?ok (?P @ a @ ?Q @ f @ CropVolume i # g)"
        using a(2) okf g(2) by simp
      ultimately show ?thesis by blast
    qed
  qed
qed


section \<open>The claims about the evaluation loop\<close>

text \<open>
  C1.  When the volume of a case with \<open>S\<close> slices has been filled: the volume
  allocated before the slice loop has \<open>S\<close> planes of shape \<open>(D, D)\<close>, \<open>D\<close> being
  \<^verbatim>\<open>vol_cube_dim\<close>, all zero; the filled volume has the same shape; and for every
  \<open>j < S\<close>, plane \<open>j\<close> is \<^verbatim>\<open>fake_B[0, 0, :, :]\<close> after inference on slice \<open>j\<close>,
  broadcast to \<open>(D, D)\<close>, hence equal to it when that output has shape \<open>(D, D)\<close>.
\<close>

theorem volume_filled_by_slices:
  fixes cb :: "('ds, 'd, 'm, 'a :: zero) collab"
  assumes "fill_volume cb opt dir i dataset m0 cs = Done s"
  shows "0 \<le> vol_cube_dim opt
     \<and> (\<exists>v0. torch_zeros (length (batches cb dataset)) (vol_cube_dim opt) (vol_cube_dim opt) = Inr v0
          \<and> length v0 = length (batches cb dataset)
          \<and> list_all (\<lambda>p. p = replicate (nat (vol_cube_dim opt)) (replicate (nat (vol_cube_dim opt)) 0)) v0
          \<and> slice_loop cb (nat (vol_cube_dim opt)) dir i (enumerate 0 (batches cb dataset))
               \<lparr>model = m0, gen_vol = v0, scalls = cs\<rparr> = Done s)
     \<and> length (gen_vol s) = length (batches cb dataset)
     \<and> (\<forall>j<length (batches cb dataset).
          is_mat (nat (vol_cube_dim opt)) (nat (vol_cube_dim opt)) (gen_vol s ! j)
          \<and> (\<exists>x. inferred cb m0 (batches cb dataset) j = Inr x
                \<and> broadcast2 (nat (vol_cube_dim opt)) x = Inr (gen_vol s ! j)
                \<and> (is_mat (nat (vol_cube_dim opt)) (nat (vol_cube_dim opt)) x \<longrightarrow> gen_vol s ! j = x)))"
proof -
  let ?D = "nat (vol_cube_dim opt)" and ?bs = "batches cb dataset"
  from assms have nn: "0 \<le> vol_cube_dim opt"
    by (auto simp: fill_volume_def torch_zeros_def split: if_splits)
  define v0 :: "'a vol" where "v0 = zeros (length ?bs) ?D ?D"
  have tz: "torch_zeros (length ?bs) (vol_cube_dim opt) (vol_cube_dim opt) = Inr v0"
    using nn by (simp add: torch_zeros_def v0_def)
  have sl: "slice_loop cb ?D dir i (enumerate 0 ?bs) \<lparr>model = m0, gen_vol = v0, scalls = cs\<rparr> = Done s"
    using assms tz by (simp add: fill_volume_def)
  have zs: "length v0 = length ?bs" "list_all (\<lambda>p. p = replicate ?D (replicate ?D 0)) v0"
    by (simp_all add: v0_def zeros_shape)
  from slice_loop_Done [OF sl] have
    l: "length (gen_vol s) = length v0" and
    f: "\<forall>j<length ?bs. \<exists>x. inferred cb m0 ?bs j = Inr x \<and> broadcast2 ?D x = Inr (gen_vol s ! j)"
    by auto
  have a: "\<exists>v0. torch_zeros (length ?bs) (vol_cube_dim opt) (vol_cube_dim opt) = Inr v0
          \<and> length v0 = length ?bs
          \<and> list_all (\<lambda>p. p = replicate ?D (replicate ?D 0)) v0
          \<and> slice_loop cb ?D dir i (enumerate 0 ?bs) \<lparr>model = m0, gen_vol = v0, scalls = cs\<rparr> = Done s"
    by (rule exI [of _ v0]) (intro conjI tz zs sl)
  have b: "length (gen_vol s) = length ?bs" using l zs by simp
  have c: "\<forall>j<length ?bs. is_mat ?D ?D (gen_vol s ! j)
          \<and> (\<exists>x. inferred cb m0 ?bs j = Inr x \<and> broadcast2 ?D x = Inr (gen_vol s ! j)
                \<and> (is_mat ?D ?D x \<longrightarrow> gen_vol s ! j = x))"
  proof (intro allI impI)
    fix j assume "j < length ?bs"
    with f obtain x where x: "inferred cb m0 ?bs j = Inr x" "broadcast2 ?D x = Inr (gen_vol s ! j)"
      by blast
    have "is_mat ?D ?D x \<longrightarrow> gen_vol s ! j = x"
      using x(2) by (auto dest: broadcast2_same)
    with x broadcast2_shape [OF x(2)]
    show "is_mat ?D ?D (gen_vol s ! j)
          \<and> (\<exists>x. inferred cb m0 ?bs j = Inr x \<and> broadcast2 ?D x = Inr (gen_vol s ! j)
                \<and> (is_mat ?D ?D x \<longrightarrow> gen_vol s ! j = x))"
      by blast
  qed
  from nn a b c show ?thesis by blast
qed

theorem volume_filled_by_slices_witness:
  "is_done (fill_volume example_collab example_eval_opt ''fig'' 0 0 0 [])
   \<and> inferred example_collab 0 (batches example_collab 0) 3 = Inr [[4, 4], [4, 4]]
   \<and> is_mat 2 2 [[4, 4], [4, 4 :: int]]
   \<and> gen_vol (outcome_state (fill_volume example_collab example_eval_opt ''fig'' 0 0 0 [])) ! 3
       = [[4, 4], [4, 4]]
   \<and> length (gen_vol (outcome_state (fill_volume example_collab example_eval_opt ''fig'' 0 0 0 []))) = 5"
proof -
  let ?r = "fill_volume example_collab example_eval_opt ''fig'' 0 0 0 []"
  have d: "is_done ?r" by code_simp
  have h: "?r = Done (outcome_state ?r)" using d by (rule is_done_eq)
  have n: "length (batches example_collab 0) = 5" by (simp add: example_collab_def)
  have D: "nat (vol_cube_dim example_eval_opt) = 2" by (simp add: example_eval_opt_def)
  have i: "inferred example_collab 0 (batches example_collab 0) 3 = Inr [[4, 4], [4, 4]]"
    by code_simp
  have m: "is_mat 2 2 [[4, 4], [4, 4 :: int]]" by (simp add: is_mat_def)
  from volume_filled_by_slices [OF h] have
    l: "length (gen_vol (outcome_state ?r)) = 5" and
    a: "\<forall>j<5. \<exists>x. inferred example_collab 0 (batches example_collab 0) j = Inr x
        \<and> (is_mat 2 2 x \<longrightarrow> gen_vol (outcome_state ?r) ! j = x)"
    unfolding n D by blast+
  have "(3 :: nat) < 5" by simp
  with a obtain x where x: "inferred example_collab 0 (batches example_collab 0) 3 = Inr x"
    "is_mat 2 2 x \<longrightarrow> gen_vol (outcome_state ?r) ! 3 = x"
    by blast
  from x(1) i have "x = [[4, 4], [4, 4]]" by simp
  with x(2) m have "gen_vol (outcome_state ?r) ! 3 = [[4, 4], [4, 4]]" by simp
  with d i m l show ?thesis by simp
qed

text \<open>
  C7.  In an evaluation run, the global intensity range is recomputed iff
  \<^verbatim>\<open>global_min\<close> and \<^verbatim>\<open>global_max\<close> are both 0 at the start; otherwise both
  configured bounds are kept.  The recomputation is the third call of the run,
  made once, before the first call for any case; every later call that receives
  the namespace receives the same one, with the bounds so fixed.
\<close>

theorem intensity_range_computed_once:
  fixes cb :: "('ds, 'd, 'm, 'a :: zero) collab"
  assumes "r = test cb manifest f0 opt"
    and "cs = ecalls (outcome_state (snd r))"
    and "unset = (global_min opt = 0 \<and> global_max opt = 0)"
  shows "(global_min (fst r), global_max (fst r)) =
            (if unset then find_grayscale_limits cb (map fst manifest) (data_format opt)
             else (global_min opt, global_max opt))
     \<and> (\<exists>rest. cs = Mkdir (test_fig_dir (test_dirs opt)) # ReadCsv (csv_name opt) #
                (if unset then [FindGrayscaleLimits (map fst manifest) (data_format opt)] else [])
                @ rest
            \<and> list_all (during_cases (fst r)) rest)
     \<and> length (filter is_find_limits cs) = (if unset then 1 else 0)
     \<and> list_all (\<lambda>opt'. opt' = fst r) (concat (map opt_seen cs))"
proof -
  let ?paths = "map fst manifest"
  let ?opt1 = "test_dirs opt"
  let ?opt2 = "set_limits cb ?paths ?opt1"
  let ?pre = "setup_calls ?paths ?opt1"
  let ?es0 = "\<lparr>ecfg = ?opt2, files = f0, ecalls = ?pre\<rparr>"
  let ?loop = "case_loop cb (test_fig_dir ?opt1) (length ?paths) (enumerate 0 manifest) ?es0"
  have e0: "ecfg ?es0 = ?opt2" by simp
  note cl = case_loop_calls [OF e0, of cb "test_fig_dir ?opt1" "length ?paths" "enumerate 0 manifest"]
  have r2: "snd r = ?loop"
    unfolding assms(1) by (simp add: test_def Let_def)
  have r1: "fst r = ?opt2"
    unfolding assms(1) using cl by (simp add: test_def Let_def)
  have g: "global_min ?opt1 = global_min opt" "global_max ?opt1 = global_max opt"
    "data_format ?opt1 = data_format opt" "csv_name ?opt1 = csv_name opt"
    by (simp_all add: test_dirs_def Let_def)
  have a: "(global_min (fst r), global_max (fst r)) =
            (if unset then find_grayscale_limits cb ?paths (data_format opt)
             else (global_min opt, global_max opt))"
    unfolding r1 assms(3) by (simp add: set_limits_def g split: prod.splits)
  have pre: "?pre = Mkdir (test_fig_dir ?opt1) # ReadCsv (csv_name opt) #
                (if unset then [FindGrayscaleLimits ?paths (data_format opt)] else [])"
    unfolding assms(3) by (simp add: setup_calls_def g)
  from cl obtain rest where rest: "cs = ?pre @ rest" "list_all (during_cases (fst r)) rest"
    unfolding assms(2) r2 r1 by auto
  note f = during_cases_filter [OF rest(2)]
  have b: "\<exists>rest. cs = Mkdir (test_fig_dir ?opt1) # ReadCsv (csv_name opt) #
                (if unset then [FindGrayscaleLimits ?paths (data_format opt)] else []) @ rest
            \<and> list_all (during_cases (fst r)) rest"
    using rest unfolding pre by (intro exI [of _ rest]) simp
  have c: "length (filter is_find_limits cs) = (if unset then 1 else 0)"
    unfolding rest(1) pre using f(1) by (simp add: is_find_limits_def)
  have d: "list_all (\<lambda>opt'. opt' = fst r) (concat (map opt_seen cs))"
    unfolding rest(1) pre using f(2) by simp
  from a b c d show ?thesis by blast
qed

theorem intensity_range_computed_once_witness:
  "is_done (snd (test example_collab example_manifest Map.empty example_eval_opt))
   \<and> (global_min example_eval_opt = 0 \<and> global_max example_eval_opt = 0)
   \<and> global_min (fst (test example_collab example_manifest Map.empty example_eval_opt)) = - 1000
   \<and> global_max (fst (test example_collab example_manifest Map.empty example_eval_opt)) = 3000
   \<and> length (filter is_find_limits
        (ecalls (outcome_state (snd (test example_collab example_manifest Map.empty example_eval_opt)))))
       = 1"
proof -
  let ?r = "test example_collab example_manifest Map.empty example_eval_opt"
  have d: "is_done (snd ?r)" by code_simp
  have u: "global_min example_eval_opt = 0 \<and> global_max example_eval_opt = 0"
    by (simp add: example_eval_opt_def default_opt_def)
  have l: "find_grayscale_limits example_collab (map fst example_manifest)
      (data_format example_eval_opt) = (- 1000, 3000)"
    by (simp add: example_collab_def)
  from intensity_range_computed_once [OF refl refl refl, of example_collab example_manifest
      Map.empty example_eval_opt] u l d
  show ?thesis by simp
qed



text \<open>
  C8, as stated, fails.  The directory of case 0 exists from an earlier run that
  saved NIfTI; the run with \<^verbatim>\<open>save_nifti\<close> unset keeps the directory, writes
  \<^verbatim>\<open>atme_vol.pt\<close>, and the directory still contains \<^verbatim>\<open>atme_vol.nii.gz\<close> with the
  same cropped volume.
\<close>

theorem stale_nifti_counterexample:
  "\<not> save_nifti example_eval_opt
   \<and> is_done (snd (test example_collab [(''cor_0.nii'', ''ax_0.nii'')] stale_files example_eval_opt))
   \<and> files (outcome_state
        (snd (test example_collab [(''cor_0.nii'', ''ax_0.nii'')] stale_files example_eval_opt)))
        ''outputs/simple_output/data/generation/case_0/atme_vol.pt''
       = Some (File (TorchFile example_volume))
   \<and> files (outcome_state
        (snd (test example_collab [(''cor_0.nii'', ''ax_0.nii'')] stale_files example_eval_opt)))
        ''outputs/simple_output/data/generation/case_0/atme_vol.nii.gz''
       = Some (File (NiftiFile example_volume))
   \<and> \<not> (path_exists (files (outcome_state
        (snd (test example_collab [(''cor_0.nii'', ''ax_0.nii'')] stale_files example_eval_opt))))
        ''outputs/simple_output/data/generation/case_0/atme_vol.nii.gz''
        \<longleftrightarrow> save_nifti example_eval_opt)"
  by code_simp

text \<open>
  C8, amended.  For every case index \<open>i\<close> processed by the evaluation loop, with
  \<open>d\<close> the directory \<^verbatim>\<open>case_<i>\<close>:

  \<^item> whatever the outcome of the case, \<^verbatim>\<open>os.makedirs(d)\<close> is called only if the
    path did not exist before the case, and the case never fails with
    \<^verbatim>\<open>FileExistsError\<close>;
  \<^item> creation is idempotent: when \<open>d\<close> is already a directory (and the volume can
    be filled and the two file paths are not directories), the case completes
    without a call of \<^verbatim>\<open>os.makedirs\<close>, and the file system afterwards is the one
    before with \<^verbatim>\<open>atme_vol.pt\<close>, and \<^verbatim>\<open>atme_vol.nii.gz\<close> if \<^verbatim>\<open>save_nifti\<close> is set,
    written: everything else in the directory is kept;
  \<^item> after the case completes, \<^verbatim>\<open>os.makedirs(d)\<close> was called iff the path did not
    exist before, \<open>d\<close> is a directory, \<^verbatim>\<open>atme_vol.pt\<close> in it holds the cropped
    volume, and \<^verbatim>\<open>atme_vol.nii.gz\<close> in it holds the cropped volume if \<^verbatim>\<open>save_nifti\<close>
    is set, and otherwise is what it was before the case (absent, or the file
    left by an earlier run).
\<close>

theorem case_directory_and_files:
  fixes cb :: "('ds, 'd, 'm, 'a :: zero) collab"
  assumes "data_dir opt = Some dd"
    and "d = case_dir dd i"
    and "ds = create_dataset cb opt cor i ax"
    and "r = test_case cb opt fig n (i, cor, ax) es"
  shows "(\<exists>new. ecalls (outcome_state r) = ecalls es @ new
            \<and> (Makedirs d \<in> set new \<longrightarrow> \<not> path_exists (files es) d))
     \<and> (\<forall>es'. r \<noteq> Raised FileExistsError es')
     \<and> (\<forall>s. files es d = Some Dir
            \<and> fill_volume cb opt fig i ds (create_model cb opt ds)
                 (ecalls es @ [PrintCase i n cor, CreateTestDataset opt cor i ax, CreateModel opt,
                               ModelSetup opt, ModelEval]) = Done s
            \<and> files es (d @ ''/atme_vol.pt'') \<noteq> Some Dir
            \<and> (save_nifti opt \<longrightarrow> files es (d @ ''/atme_vol.nii.gz'') \<noteq> Some Dir)
          \<longrightarrow> r = Done (es\<lparr>files :=
                   (if save_nifti opt
                    then (files es)
                           (d @ ''/atme_vol.pt'' \<mapsto> File (TorchFile (crop_volume cb ds (gen_vol s))),
                            d @ ''/atme_vol.nii.gz'' \<mapsto> File (NiftiFile (crop_volume cb ds (gen_vol s))))
                    else (files es)
                           (d @ ''/atme_vol.pt'' \<mapsto> File (TorchFile (crop_volume cb ds (gen_vol s))))),
                 ecalls := scalls s @ CropVolume i # TorchSave (d @ ''/atme_vol.pt'') #
                   (if save_nifti opt then [SaveNifti (d @ ''/atme_vol.nii.gz'')] else [])\<rparr>)
              \<and> Makedirs d \<notin> set (drop (length (ecalls es)) (scalls s)))
     \<and> (\<forall>es'. r = Done es' \<longrightarrow>
          (\<exists>new. ecalls es' = ecalls es @ new
              \<and> (Makedirs d \<in> set new \<longleftrightarrow> \<not> path_exists (files es) d))
          \<and> files es' d = Some Dir
          \<and> (\<exists>s cs. fill_volume cb opt fig i ds (create_model cb opt ds) cs = Done s
               \<and> files es' (d @ ''/atme_vol.pt'')
                    = Some (File (TorchFile (crop_volume cb ds (gen_vol s))))
               \<and> files es' (d @ ''/atme_vol.nii.gz'') =
                    (if save_nifti opt
                     then Some (File (NiftiFile (crop_volume cb ds (gen_vol s))))
                     else files es (d @ ''/atme_vol.nii.gz''))))"
proof -
  let ?pt = "d @ ''/atme_vol.pt''" and ?nii = "d @ ''/atme_vol.nii.gz''"
  let ?Q = "[CreateTestDataset opt cor i ax, CreateModel opt, ModelSetup opt, ModelEval]"
  have dn: "d \<noteq> []" "last d \<noteq> CHR ''/''" using case_dir_end [of dd i] by (simp_all add: assms(2))
  \<comment> \<open>the directory is created only if it is missing\<close>
  from test_case_makedirs [OF assms(1), of cb fig n i cor ax es]
  have a: "\<exists>new. ecalls (outcome_state r) = ecalls es @ new
            \<and> (Makedirs d \<in> set new \<longrightarrow> \<not> path_exists (files es) d)"
    unfolding assms(2,4) by blast
  \<comment> \<open>an existing path is not an error\<close>
  have b: "\<forall>es'. r \<noteq> Raised FileExistsError es'"
    unfolding assms(4) by (simp add: test_case_no_exists_error)
  \<comment> \<open>an existing directory is kept\<close>
  have c: "\<forall>s. files es d = Some Dir
            \<and> fill_volume cb opt fig i ds (create_model cb opt ds)
                 (ecalls es @ [PrintCase i n cor, CreateTestDataset opt cor i ax, CreateModel opt,
                               ModelSetup opt, ModelEval]) = Done s
            \<and> files es ?pt \<noteq> Some Dir
            \<and> (save_nifti opt \<longrightarrow> files es ?nii \<noteq> Some Dir)
          \<longrightarrow> r = Done (es\<lparr>files :=
                   (if save_nifti opt
                    then (files es)
                           (?pt \<mapsto> File (TorchFile (crop_volume cb ds (gen_vol s))),
                            ?nii \<mapsto> File (NiftiFile (crop_volume cb ds (gen_vol s))))
                    else (files es)
                           (?pt \<mapsto> File (TorchFile (crop_volume cb ds (gen_vol s))))),
                 ecalls := scalls s @ CropVolume i # TorchSave ?pt #
                   (if save_nifti opt then [SaveNifti ?nii] else [])\<rparr>)
              \<and> Makedirs d \<notin> set (drop (length (ecalls es)) (scalls s))"
  proof (intro allI impI, elim conjE)
    fix s
    assume h: "files es d = Some Dir"
      "fill_volume cb opt fig i ds (create_model cb opt ds)
         (ecalls es @ [PrintCase i n cor, CreateTestDataset opt cor i ax, CreateModel opt,
                       ModelSetup opt, ModelEval]) = Done s"
      "files es ?pt \<noteq> Some Dir" "save_nifti opt \<longrightarrow> files es ?nii \<noteq> Some Dir"
    note ex = test_case_existing_dir [OF assms(1) h(1) [unfolded assms(2)]
        h(2) [unfolded assms(3)] h(3) [unfolded assms(2)] h(4) [unfolded assms(2)]]
    from fill_volume_calls [of cb opt fig i ds "create_model cb opt ds"
        "ecalls es @ PrintCase i n cor # ?Q"] h(2)
    obtain f where f: "scalls s = (ecalls es @ PrintCase i n cor # ?Q) @ f" "list_all is_slice_call f"
      by (auto simp: outcome_state_simps)
    have "Makedirs d \<notin> set f" using f(2) by (rule slice_calls_no_makedirs)
    then have "Makedirs d \<notin> set (drop (length (ecalls es)) (scalls s))"
      unfolding f(1) by simp
    with ex show "r = Done (es\<lparr>files :=
                   (if save_nifti opt
                    then (files es)
                           (?pt \<mapsto> File (TorchFile (crop_volume cb ds (gen_vol s))),
                            ?nii \<mapsto> File (NiftiFile (crop_volume cb ds (gen_vol s))))
                    else (files es)
                           (?pt \<mapsto> File (TorchFile (crop_volume cb ds (gen_vol s))))),
                 ecalls := scalls s @ CropVolume i # TorchSave ?pt #
                   (if save_nifti opt then [SaveNifti ?nii] else [])\<rparr>)
              \<and> Makedirs d \<notin> set (drop (length (ecalls es)) (scalls s))"
      unfolding assms(2,3,4) by simp
  qed
  \<comment> \<open>the case that completes\<close>
  have e: "\<forall>es'. r = Done es' \<longrightarrow>
          (\<exists>new. ecalls es' = ecalls es @ new
              \<and> (Makedirs d \<in> set new \<longleftrightarrow> \<not> path_exists (files es) d))
          \<and> files es' d = Some Dir
          \<and> (\<exists>s cs. fill_volume cb opt fig i ds (create_model cb opt ds) cs = Done s
               \<and> files es' ?pt = Some (File (TorchFile (crop_volume cb ds (gen_vol s))))
               \<and> files es' ?nii =
                    (if save_nifti opt
                     then Some (File (NiftiFile (crop_volume cb ds (gen_vol s))))
                     else files es ?nii))"
  proof (intro allI impI)
    fix es' assume "r = Done es'"
    then have dn': "test_case cb opt fig n (i, cor, ax) es = Done es'" unfolding assms(4) by simp
    let ?es1 = "es\<lparr>ecalls := ecalls es @ [PrintCase i n cor]\<rparr>"
    from test_case_Done [OF dn' assms(1)] obtain es2 s where
      1: "ensure_dir d ?es1 = Done es2" and
      2: "fill_volume cb opt fig i ds (create_model cb opt ds) (ecalls es2 @ ?Q) = Done s" and
      3: "save_volume opt d (crop_volume cb ds (gen_vol s)) (es2\<lparr>ecalls := scalls s @ [CropVolume i]\<rparr>)
            = Done es'"
      unfolding assms(2,3) by blast
    let ?v = "crop_volume cb ds (gen_vol s)"
    let ?M = "if path_exists (files es) d then [] else [Makedirs d]"
    note sv = save_volume_Done [OF 3 dn]
    have e2: "ecalls es2 = ecalls es @ PrintCase i n cor # ?M"
      using ensure_dir_Done [OF 1] by (cases "path_exists (files es) d") simp_all
    have n2: "files es2 ?nii = files es ?nii"
    proof (cases "path_exists (files es) d")
      case True
      with ensure_dir_Done(1) [OF 1] show ?thesis by simp
    next
      case False
      with ensure_dir_Done(2) [OF 1] have "makedirs d (files es) = Inr (files es2)" by simp
      from makedirs_Inr(3) [OF this, of ?nii] show ?thesis by simp
    qed
    from fill_volume_calls [of cb opt fig i ds "create_model cb opt ds" "ecalls es2 @ ?Q"] 2
    obtain f where f: "scalls s = (ecalls es2 @ ?Q) @ f" "list_all is_slice_call f"
      by (auto simp: outcome_state_simps)
    define N where "N = CropVolume i # TorchSave ?pt # (if save_nifti opt then [SaveNifti ?nii] else [])"
    have l: "ecalls es' = ecalls es @ (PrintCase i n cor # ?M @ ?Q @ f @ N)"
      using sv(3) f(1) e2 by (simp add: N_def)
    have "Makedirs d \<notin> set f" using f(2) by (rule slice_calls_no_makedirs)
    then have m: "Makedirs d \<in> set (PrintCase i n cor # ?M @ ?Q @ f @ N) \<longleftrightarrow> \<not> path_exists (files es) d"
      by (simp add: N_def)
    have a': "\<exists>new. ecalls es' = ecalls es @ new
              \<and> (Makedirs d \<in> set new \<longleftrightarrow> \<not> path_exists (files es) d)"
      using l m by blast
    have ne: "d \<noteq> ?pt" "d \<noteq> ?nii" "?pt \<noteq> ?nii" by simp_all
    have b': "files es' d = Some Dir"
      using sv(1,2) ne by simp
    have c1: "files es' ?pt = Some (File (TorchFile ?v))"
      using sv(2) ne by simp
    have c2: "files es' ?nii = (if save_nifti opt then Some (File (NiftiFile ?v)) else files es ?nii)"
      using sv(2) ne n2 by simp
    have c': "\<exists>s cs. fill_volume cb opt fig i ds (create_model cb opt ds) cs = Done s
            \<and> files es' ?pt = Some (File (TorchFile (crop_volume cb ds (gen_vol s))))
            \<and> files es' ?nii =
                 (if save_nifti opt
                  then Some (File (NiftiFile (crop_volume cb ds (gen_vol s))))
                  else files es ?nii)"
      using 2 c1 c2 by blast
    from a' b' c' show "(\<exists>new. ecalls es' = ecalls es @ new
              \<and> (Makedirs d \<in> set new \<longleftrightarrow> \<not> path_exists (files es) d))
          \<and> files es' d = Some Dir
          \<and> (\<exists>s cs. fill_volume cb opt fig i ds (create_model cb opt ds) cs = Done s
               \<and> files es' ?pt = Some (File (TorchFile (crop_volume cb ds (gen_vol s))))
               \<and> files es' ?nii =
                    (if save_nifti opt
                     then Some (File (NiftiFile (crop_volume cb ds (gen_vol s))))
                     else files es ?nii))"
      by blast
  qed
  from a b c e show ?thesis by blast
qed

theorem case_directory_and_files_witness:
  "stale_files ''outputs/simple_output/data/generation/case_0'' = Some Dir
   \<and> is_done (test_case example_collab (test_dirs example_eval_opt) ''fig'' 1
        (0, ''cor_0.nii'', ''ax_0.nii'')
        \<lparr>ecfg = test_dirs example_eval_opt, files = stale_files, ecalls = []\<rparr>)
   \<and> Makedirs ''outputs/simple_output/data/generation/case_0''
        \<notin> set (ecalls (outcome_state (test_case example_collab (test_dirs example_eval_opt) ''fig'' 1
            (0, ''cor_0.nii'', ''ax_0.nii'')
            \<lparr>ecfg = test_dirs example_eval_opt, files = stale_files, ecalls = []\<rparr>)))
   \<and> files (outcome_state (test_case example_collab (test_dirs example_eval_opt) ''fig'' 1
        (0, ''cor_0.nii'', ''ax_0.nii'')
        \<lparr>ecfg = test_dirs example_eval_opt, files = stale_files, ecalls = []\<rparr>))
        (''outputs/simple_output/data/generation/case_0'' @ ''/atme_vol.nii.gz'')
       = stale_files (''outputs/simple_output/data/generation/case_0'' @ ''/atme_vol.nii.gz'')
   \<and> \<not> path_exists Map.empty ''outputs/simple_output/data/generation/case_0''
   \<and> is_done (test_case example_collab (test_dirs example_eval_opt) ''fig'' 1
        (0, ''cor_0.nii'', ''ax_0.nii'')
        \<lparr>ecfg = test_dirs example_eval_opt, files = Map.empty, ecalls = []\<rparr>)
   \<and> Makedirs ''outputs/simple_output/data/generation/case_0''
        \<in> set (ecalls (outcome_state (test_case example_collab (test_dirs example_eval_opt) ''fig'' 1
            (0, ''cor_0.nii'', ''ax_0.nii'')
            \<lparr>ecfg = test_dirs example_eval_opt, files = Map.empty, ecalls = []\<rparr>)))
   \<and> files (outcome_state (test_case example_collab (test_dirs example_eval_opt) ''fig'' 1
        (0, ''cor_0.nii'', ''ax_0.nii'')
        \<lparr>ecfg = test_dirs example_eval_opt, files = Map.empty, ecalls = []\<rparr>))
        ''outputs/simple_output/data/generation/case_0'' = Some Dir
   \<and> files (outcome_state (test_case example_collab (test_dirs example_eval_opt) ''fig'' 1
        (0, ''cor_0.nii'', ''ax_0.nii'')
        \<lparr>ecfg = test_dirs example_eval_opt, files = Map.empty, ecalls = []\<rparr>))
        (''outputs/simple_output/data/generation/case_0'' @ ''/atme_vol.nii.gz'') = None"
proof -
  let ?opt = "test_dirs example_eval_opt"
  let ?c = "(0 :: nat, ''cor_0.nii'', ''ax_0.nii'')"
  let ?d = "''outputs/simple_output/data/generation/case_0''"
  let ?ds = "create_dataset example_collab ?opt ''cor_0.nii'' 0 ''ax_0.nii''"
  let ?stale = "\<lparr>ecfg = ?opt, files = stale_files, ecalls = []\<rparr> :: int estate"
  let ?fresh = "\<lparr>ecfg = ?opt, files = Map.empty, ecalls = []\<rparr> :: int estate"
  let ?rs = "test_case example_collab ?opt ''fig'' 1 ?c ?stale"
  let ?rf = "test_case example_collab ?opt ''fig'' 1 ?c ?fresh"
  let ?fv = "fill_volume example_collab ?opt ''fig'' 0 ?ds (create_model example_collab ?opt ?ds)
      (ecalls ?stale @ [PrintCase 0 1 ''cor_0.nii'', CreateTestDataset ?opt ''cor_0.nii'' 0 ''ax_0.nii'',
         CreateModel ?opt, ModelSetup ?opt, ModelEval])"
  have h1: "data_dir ?opt = Some ''outputs/simple_output/data''" by code_simp
  have h2: "?d = case_dir ''outputs/simple_output/data'' 0" by code_simp
  have sn: "\<not> save_nifti ?opt" by code_simp
  \<comment> \<open>the directory exists\<close>
  have s1: "files ?stale ?d = Some Dir" by code_simp
  have "is_done ?fv" by code_simp
  then have s2: "?fv = Done (outcome_state ?fv)" by (rule is_done_eq)
  have s3: "files ?stale (?d @ ''/atme_vol.pt'') \<noteq> Some Dir" by code_simp
  note st = case_directory_and_files [OF h1 h2 refl refl, where cb = example_collab
      and cor = "''cor_0.nii''" and ax = "''ax_0.nii''" and fig = "''fig''" and n = 1 and es = "?stale"]
  from st s1 s2 s3 sn have
    rs: "?rs = Done (?stale\<lparr>files := (files ?stale)(?d @ ''/atme_vol.pt'' \<mapsto>
                 File (TorchFile (crop_volume example_collab ?ds (gen_vol (outcome_state ?fv))))),
           ecalls := scalls (outcome_state ?fv) @ [CropVolume 0, TorchSave (?d @ ''/atme_vol.pt'')]\<rparr>)"
    and ms: "Makedirs ?d \<notin> set (drop (length (ecalls ?stale)) (scalls (outcome_state ?fv)))"
    by auto
  have a1: "is_done ?rs" unfolding rs by (simp add: is_done_def)
  have a2: "Makedirs ?d \<notin> set (ecalls (outcome_state ?rs))"
    unfolding rs using ms by (simp add: outcome_state_simps)
  have a3: "files (outcome_state ?rs) (?d @ ''/atme_vol.nii.gz'') = stale_files (?d @ ''/atme_vol.nii.gz'')"
    unfolding rs by (simp add: outcome_state_simps)
  \<comment> \<open>the directory is missing\<close>
  have f0: "\<not> path_exists (files ?fresh) ?d" by (simp add: path_exists_def)
  have "is_done ?rf" by code_simp
  then have f1: "?rf = Done (outcome_state ?rf)" by (rule is_done_eq)
  note fr = case_directory_and_files [OF h1 h2 refl refl, where cb = example_collab
      and cor = "''cor_0.nii''" and ax = "''ax_0.nii''" and fig = "''fig''" and n = 1 and es = "?fresh"]
  from fr f1 f0 sn have
    b1: "Makedirs ?d \<in> set (ecalls (outcome_state ?rf))"
    and b2: "files (outcome_state ?rf) ?d = Some Dir"
    and b3: "files (outcome_state ?rf) (?d @ ''/atme_vol.nii.gz'') = None"
    by auto
  have b0: "\<not> path_exists Map.empty ?d" by (simp add: path_exists_def)
  have s0: "stale_files ?d = Some Dir" using s1 by simp
  from s0 a1 a2 a3 b0 \<open>is_done ?rf\<close> b1 b2 b3 show ?thesis by (intro conjI)
qed


section \<open>The configuration across both loops\<close>

text \<open>
  C6, as stated, fails: training replaces \<^verbatim>\<open>save_dir\<close>, and evaluation replaces
  the unset intensity range.
\<close>

theorem config_written_counterexample:
  "save_dir (fst (train (\<lambda>_. 0) three_batches small_opt)) \<noteq> save_dir small_opt
   \<and> global_min (fst (test example_collab [(''c0'', ''a0'')] Map.empty example_eval_opt))
        \<noteq> global_min example_eval_opt"
  by code_simp

text \<open>
  C6, amended.  \<^verbatim>\<open>train\<close> and \<^verbatim>\<open>test\<close> write the configuration before their
  loops start, and the loops do not write it.

  \<^item> After \<^verbatim>\<open>train\<close>, completed or aborted, the namespace is the one passed in
    with \<^verbatim>\<open>isTrain\<close> true and \<^verbatim>\<open>save_dir\<close>, \<^verbatim>\<open>data_dir\<close> the joined paths.
  \<^item> The epoch loop, the batch loop and a single batch step, started in any
    state, end (by completing or by raising) in a state with the namespace
    they started with.
  \<^item> After \<^verbatim>\<open>test\<close>, completed or aborted, the namespace is the one passed in
    with \<^verbatim>\<open>isTrain\<close> false, the same two paths and, when both bounds were 0,
    \<^verbatim>\<open>global_min\<close> and \<^verbatim>\<open>global_max\<close> the computed range.
  \<^item> The case loop and a single case (its slice loop included), started in any
    state, end in a state with the namespace they started with.
\<close>

theorem config_written_at_entry_only:
  fixes cb :: "('ds, 'd, 'm, 'a :: zero) collab"
  shows "fst (train draws ds opt) =
     opt\<lparr>isTrain := True,
         save_dir := path_join (main_root opt) [model_root opt, exp_name opt],
         data_dir := Some (path_join (main_root opt) [model_root opt, data_name opt])\<rparr>
   \<and> cfg (outcome_state (epoch_loop draws dir ds epochs_left s)) = cfg s
   \<and> cfg (outcome_state (batch_loop draws dir epoch bs s)) = cfg s
   \<and> cfg (outcome_state (batch_step draws dir epoch b s)) = cfg s
   \<and> fst (test cb manifest f0 opt) =
     opt\<lparr>isTrain := False,
         save_dir := path_join (main_root opt) [model_root opt, exp_name opt],
         data_dir := Some (path_join (main_root opt) [model_root opt, data_name opt]),
         global_min := (if global_min opt = 0 \<and> global_max opt = 0
                        then fst (find_grayscale_limits cb (map fst manifest) (data_format opt))
                        else global_min opt),
         global_max := (if global_min opt = 0 \<and> global_max opt = 0
                        then snd (find_grayscale_limits cb (map fst manifest) (data_format opt))
                        else global_max opt)\<rparr>
   \<and> ecfg (outcome_state (case_loop cb fig n cs es)) = ecfg es
   \<and> ecfg (outcome_state (test_case cb (ecfg es) fig n c es)) = ecfg es"
proof -
  have t: "fst (train draws ds opt) =
     opt\<lparr>isTrain := True,
         save_dir := path_join (main_root opt) [model_root opt, exp_name opt],
         data_dir := Some (path_join (main_root opt) [model_root opt, data_name opt])\<rparr>"
    unfolding train_cfg by (simp add: train_opt_def Let_def)
  have cl: "ecfg (outcome_state (case_loop cb fig' n' cs' es')) = ecfg es'"
    for fig' n' cs' and es' :: "'a estate"
    using case_loop_calls [OF refl, of cb fig' n' cs' es'] by simp
  have "fst (test cb manifest f0 opt) = set_limits cb (map fst manifest) (test_dirs opt)"
    by (simp add: test_def Let_def cl)
  then have e: "fst (test cb manifest f0 opt) =
     opt\<lparr>isTrain := False,
         save_dir := path_join (main_root opt) [model_root opt, exp_name opt],
         data_dir := Some (path_join (main_root opt) [model_root opt, data_name opt]),
         global_min := (if global_min opt = 0 \<and> global_max opt = 0
                        then fst (find_grayscale_limits cb (map fst manifest) (data_format opt))
                        else global_min opt),
         global_max := (if global_min opt = 0 \<and> global_max opt = 0
                        then snd (find_grayscale_limits cb (map fst manifest) (data_format opt))
                        else global_max opt)\<rparr>"
    by (simp add: test_dirs_def set_limits_def Let_def split: prod.splits)
  from t e show ?thesis
    by (simp add: epoch_loop_cfg batch_loop_cfg batch_step_cfg cl test_case_ecfg)
qed

end
